theory Spec2Isabelle
  imports Complex_Main
begin

section \<open>The game session of \<^verbatim>\<open>src/game/game.ts\<close>\<close>

text \<open>
  The class \<^verbatim>\<open>Game\<close> owns the object registry, the player collections, the per-tick
  transient buffers and the tick callback installed by its constructor.  Objects are
  JavaScript references: the same \<^verbatim>\<open>Player\<close> is reachable from \<^verbatim>\<open>map.objects\<close>,
  \<^verbatim>\<open>players\<close>, \<^verbatim>\<open>connectedPlayers\<close> and \<^verbatim>\<open>activePlayers\<close>, and a write through one
  of them is seen through the others.  The model therefore keeps an explicit store from
  references to objects, and every collection holds references.
\<close>

subsection \<open>Objects\<close>

type_synonym addr = nat
type_synonym body = nat
type_synonym vec = "real \<times> real"
type_synonym emote = nat
type_synonym explosion = nat
type_synonym kill = nat

text \<open>
  \<^verbatim>\<open>object instanceof Player\<close> and \<^verbatim>\<open>object instanceof Obstacle\<close> are the two run-time
  class tests of the file; every other kind of world object fails both.
\<close>

datatype cls = Player | Obstacle | Other

text \<open>
  One record carries the fields of \<^verbatim>\<open>GameObject\<close>, \<^verbatim>\<open>Player\<close> and \<^verbatim>\<open>Obstacle\<close> that
  \<^verbatim>\<open>game.ts\<close> reads or writes.  \<^verbatim>\<open>id\<close> is written \<open>id'\<close>, and the player's own
  references to the emote and explosion lists \<open>emotes'\<close> and \<open>explosions'\<close>.
  \<open>velocity\<close> is the last pair handed to \<^verbatim>\<open>setVelocity\<close>.
\<close>

record gobj =
  cls :: cls
  id' :: nat
  dead :: bool
  body :: "body option"
  position :: vec
  direction :: vec
  destructible :: bool
  isDoor :: bool
  movingUp :: bool
  movingDown :: bool
  movingLeft :: bool
  movingRight :: bool
  moving :: bool
  velocity :: vec
  shootStart :: bool
  meleeCooldown :: int
  animActive :: bool
  animType :: int
  animSeq :: int
  animTime :: int
  visibleObjects :: "nat list"
  fullObjects :: "nat list"
  partialObjects :: "nat list"
  skipObjectCalculations :: bool
  emotesDirty :: bool
  emotes' :: "emote list"
  explosionsDirty :: bool
  explosions' :: "explosion list"
  quit :: bool

subsection \<open>Calls that leave the file\<close>

text \<open>
  Packets are built and sent by the packet classes and the socket layer.  The model
  records each such call, with the recipient and, for an update packet, the recipient's
  two private buffers at that moment.
\<close>

datatype packet =
  JoinedPacket
  | MapPacket
  | UpdatePacket "nat list" "nat list"
  | AliveCountsPacket int
  | KillPacket kill

datatype call =
  Damage addr real addr
  | Interact addr addr
  | SendPacket addr packet
  | SendData addr "packet list"

subsection \<open>The session\<close>

record game =
  heap :: "addr \<Rightarrow> gobj"
  nextAddr :: addr
  objects :: "addr list"
  players :: "addr list"
  connectedPlayers :: "addr list"
  activePlayers :: "addr list"
  dirtyPlayers :: "addr list"
  aliveCount :: int
  aliveCountDirty :: bool
  playerInfosDirty :: bool
  deletedPlayerIds :: "nat list"
  emotes :: "emote list"
  explosions :: "explosion list"
  kills :: "kill list"
  fullDirtyObjects :: "nat list"
  partialDirtyObjects :: "nat list"
  calls :: "call list"

text \<open>
  Lines 125 to 127 read \<^verbatim>\<open>Weapons[p.loadout.meleeType]\<close> and then its \<^verbatim>\<open>attack.offset\<close>
  with no guard: when the table has no entry the callback throws a \<^verbatim>\<open>TypeError\<close>.  An
  operation that may throw returns either the error with the session as the throw leaves
  it (\<open>Inl\<close>), or the session it returns with (\<open>Inr\<close>).
\<close>

datatype error = TypeError

type_synonym outcome = "(error \<times> game) + game"

text \<open>
  What the tick callback needs from outside the file: the two configured speeds of
  \<^verbatim>\<open>GameOptions\<close>; the probe body built from the attacker (weapon offset, facing angle,
  scale and position, through \<^verbatim>\<open>Weapons\<close>, \<^verbatim>\<open>unitVecToRadians\<close>, \<^verbatim>\<open>Vector\<close> and
  \<^verbatim>\<open>Bodies.circle\<close>), which is \<open>None\<close> when the attacker's weapon has no entry in
  \<^verbatim>\<open>Weapons\<close>; the narrow-phase query \<^verbatim>\<open>Collision.collides\<close>, which answers with a
  penetration depth or with nothing; and the methods \<^verbatim>\<open>damage\<close> and \<^verbatim>\<open>interact\<close> of the
  hit object, which may change the session in any way.
\<close>

record env =
  movementSpeed :: real
  diagonalSpeed :: real
  probe :: "gobj \<Rightarrow> body option"
  collides :: "body \<Rightarrow> body \<Rightarrow> real option"
  damage :: "addr \<Rightarrow> real \<Rightarrow> addr \<Rightarrow> game \<Rightarrow> game"
  interact :: "addr \<Rightarrow> addr \<Rightarrow> game \<Rightarrow> game"

definition updObj :: "addr \<Rightarrow> (gobj \<Rightarrow> gobj) \<Rightarrow> game \<Rightarrow> game" where
  "updObj a f g = g\<lparr>heap := (heap g)(a := f (heap g a))\<rparr>"

definition emit :: "call \<Rightarrow> game \<Rightarrow> game" where
  "emit c g = g\<lparr>calls := calls g @ [c]\<rparr>"

subsection \<open>Movement (lines 93 to 107)\<close>

text \<open>
  Modelled from the spec: \<^verbatim>\<open>Player.setVelocity\<close> is not among the sources; it hands the
  pair to the physics collaborator, which the model keeps in the field \<open>velocity\<close>.
\<close>

definition setVelocity :: "real \<Rightarrow> real \<Rightarrow> gobj \<Rightarrow> gobj" where
  "setVelocity vx vy p = p\<lparr>velocity := (vx, vy)\<rparr>"

definition movement :: "real \<Rightarrow> real \<Rightarrow> gobj \<Rightarrow> gobj" where
  "movement s ds p0 =
     (let p = p0\<lparr>moving := True\<rparr> in
      if movingUp p \<and> movingLeft p then setVelocity (- ds) ds p
      else if movingUp p \<and> movingRight p then setVelocity ds ds p
      else if movingDown p \<and> movingLeft p then setVelocity (- ds) (- ds) p
      else if movingDown p \<and> movingRight p then setVelocity ds (- ds) p
      else if movingUp p then setVelocity 0 s p
      else if movingDown p then setVelocity 0 (- s) p
      else if movingLeft p then setVelocity (- s) 0 p
      else if movingRight p then setVelocity s 0 p
      else
        (let p1 = setVelocity 0 0 p;
             p2 = (if moving p1 then setVelocity 0 0 p1 else p1)
         in p2\<lparr>moving := False\<rparr>))"

text \<open>
  The table of the specification, written from its words, as a function of the four
  flags alone: the four diagonals first, then the four single directions, then rest.
\<close>

definition velocityTable :: "real \<Rightarrow> real \<Rightarrow> bool \<Rightarrow> bool \<Rightarrow> bool \<Rightarrow> bool \<Rightarrow> vec" where
  "velocityTable s ds up down left right =
     (if up \<and> left then (- ds, ds)
      else if up \<and> right then (ds, ds)
      else if down \<and> left then (- ds, - ds)
      else if down \<and> right then (ds, - ds)
      else if up then (0, s)
      else if down then (0, - s)
      else if left then (- s, 0)
      else if right then (s, 0)
      else (0, 0))"

subsection \<open>Melee (lines 111 to 160)\<close>

text \<open>Lines 117 to 121: the punching animation starts unless one is running.\<close>

definition startPunch :: "gobj \<Rightarrow> gobj" where
  "startPunch p =
     (if \<not> animActive p then p\<lparr>animActive := True, animType := 1, animTime := 0\<rparr> else p)"

text \<open>
  Lines 131 to 135 for one object of \<^verbatim>\<open>map.objects\<close> and the probe body \<open>pb\<close>: the depth
  reported for the object, when it is not skipped, passes the class test and collides
  with the probe.
\<close>

definition hitDepth :: "env \<Rightarrow> game \<Rightarrow> addr \<Rightarrow> body \<Rightarrow> addr \<Rightarrow> real option" where
  "hitDepth e g a pb ob =
     (let p = heap g a; obj = heap g ob in
      if body obj = None \<or> dead obj \<or> id' obj = id' p then None
      else if (cls obj = Obstacle \<and> destructible obj) \<or> cls obj = Player
        then collides e pb (the (body obj))
        else None)"

text \<open>
  Lines 130 to 140: the scan, carrying \<^verbatim>\<open>maxDepth\<close> and \<^verbatim>\<open>closestObject\<close>.  The body of
  the loop changes nothing but these two locals.
\<close>

fun scan ::
  "env \<Rightarrow> game \<Rightarrow> addr \<Rightarrow> body \<Rightarrow> addr list \<Rightarrow> real \<times> addr option \<Rightarrow> real \<times> addr option" where
  "scan e g a pb [] acc = acc"
| "scan e g a pb (ob # obs) (maxDepth, closestObject) =
     (case hitDepth e g a pb ob of
        None \<Rightarrow> scan e g a pb obs (maxDepth, closestObject)
      | Some d \<Rightarrow>
          if d > maxDepth then scan e g a pb obs (d, Some ob)
          else scan e g a pb obs (maxDepth, closestObject))"

definition closest :: "env \<Rightarrow> game \<Rightarrow> addr \<Rightarrow> body \<Rightarrow> addr option" where
  "closest e g a pb = snd (scan e g a pb (objects g) (- 1, None))"

text \<open>
  Lines 142 and 143.  The method runs on the session, and the model then records the
  call on the session's own log, so that the log holds exactly the calls made here.
\<close>

definition callDamage :: "env \<Rightarrow> addr \<Rightarrow> real \<Rightarrow> addr \<Rightarrow> game \<Rightarrow> game" where
  "callDamage e t n a g = (damage e t n a g)\<lparr>calls := calls g @ [Damage t n a]\<rparr>"

definition callInteract :: "env \<Rightarrow> addr \<Rightarrow> addr \<Rightarrow> game \<Rightarrow> game" where
  "callInteract e t a g = (interact e t a g)\<lparr>calls := calls g @ [Interact t a]\<rparr>"

text \<open>
  Lines 124 to 144.  Building the probe comes first and throws when the weapon has no
  entry; then the scan; then the hit.
\<close>

definition strike :: "env \<Rightarrow> addr \<Rightarrow> game \<Rightarrow> outcome" where
  "strike e a g =
     (case probe e (heap g a) of
        None \<Rightarrow> Inl (TypeError, g)
      | Some pb \<Rightarrow>
          (case closest e g a pb of
             None \<Rightarrow> Inr g
           | Some t \<Rightarrow>
               (let g1 = callDamage e t 24 a g in
                if cls (heap g1 t) = Obstacle \<and> isDoor (heap g1 t)
                then Inr (callInteract e t a g1)
                else Inr g1)))"

text \<open>
  Lines 111 to 160.  \<open>fst now\<close> is what \<^verbatim>\<open>Date.now()\<close> returns in the test of line
  113 and \<open>snd now\<close> what it returns in the assignment of line 114.
\<close>

definition shoot :: "env \<Rightarrow> int \<times> int \<Rightarrow> addr \<Rightarrow> game \<Rightarrow> outcome" where
  "shoot e now a g =
     (if shootStart (heap g a) then
        (let g1 = updObj a (\<lambda>p. p\<lparr>shootStart := False\<rparr>) g in
         if fst now - meleeCooldown (heap g1 a) \<ge> 250 then
           (let g2 = updObj a (\<lambda>p. p\<lparr>meleeCooldown := snd now\<rparr>) g1;
                g3 = updObj a startPunch g2
            in strike e a g3)
         else Inr g1)
      else Inr g)"

subsection \<open>Animation and dirty marking (lines 162 to 174)\<close>

text \<open>Lines 165 to 170, on the player.\<close>

definition animAdvance :: "gobj \<Rightarrow> gobj" where
  "animAdvance p =
     (let p1 = p\<lparr>animTime := animTime p + 1\<rparr>;
          p2 = p1\<lparr>animSeq := 1\<rparr>
      in if animTime p2 > 8
         then p2\<lparr>animActive := False, animType := 0, animSeq := 0, animTime := 0\<rparr>
         else p2)"

definition animate :: "addr \<Rightarrow> game \<Rightarrow> game" where
  "animate a g =
     (if animActive (heap g a) then
        (let g1 = g\<lparr>fullDirtyObjects := fullDirtyObjects g @ [id' (heap g a)]\<rparr>;
             g2 = updObj a (\<lambda>p. p\<lparr>fullObjects := fullObjects p @ [id' p]\<rparr>) g1
         in updObj a animAdvance g2)
      else
        (let g1 = g\<lparr>partialDirtyObjects := partialDirtyObjects g @ [id' (heap g a)]\<rparr>
         in updObj a (\<lambda>p. p\<lparr>partialObjects := partialObjects p @ [id' p]\<rparr>) g1))"

subsection \<open>The first loop (lines 88 to 175)\<close>

text \<open>
  One turn of the loop.  A throw in the melee block leaves the turn before the animation
  block is reached.
\<close>

definition processPlayer :: "env \<Rightarrow> int \<times> int \<Rightarrow> addr \<Rightarrow> game \<Rightarrow> outcome" where
  "processPlayer e now a g =
     (case shoot e now a (updObj a (movement (movementSpeed e) (diagonalSpeed e)) g) of
        Inl x \<Rightarrow> Inl x
      | Inr g2 \<Rightarrow> Inr (animate a g2))"

text \<open>
  \<^verbatim>\<open>for(const p of this.activePlayers)\<close> walks the live array by index, and \<^verbatim>\<open>damage\<close>
  may change that array while the loop runs, so the loop reads the array again at each
  step.  \<open>clock i\<close> is the pair of readings of \<^verbatim>\<open>Date.now()\<close> in step \<open>i\<close>.  A throw
  ends the loop at once.  A loop that never ends has the value \<open>None\<close>.
\<close>

partial_function (option) resolverLoop ::
  "env \<Rightarrow> (nat \<Rightarrow> int \<times> int) \<Rightarrow> nat \<Rightarrow> game \<Rightarrow> outcome option" where
  "resolverLoop e clock i g =
     (if i < length (activePlayers g)
      then (case processPlayer e (clock i) (activePlayers g ! i) g of
              Inl x \<Rightarrow> Some (Inl x)
            | Inr h \<Rightarrow> resolverLoop e clock (Suc i) h)
      else Some (Inr g))"

subsection \<open>The second loop (lines 178 to 208)\<close>

definition sendKills :: "addr \<Rightarrow> game \<Rightarrow> game" where
  "sendKills a g = foldl (\<lambda>h k. emit (SendPacket a (KillPacket k)) h) g (kills g)"

text \<open>The statements of the body, in order: line 179.\<close>

definition setSkip :: "addr \<Rightarrow> game \<Rightarrow> game" where
  "setSkip a g =
     updObj a (\<lambda>p. p\<lparr>skipObjectCalculations :=
        \<not> (length (fullDirtyObjects g) \<noteq> 0) \<and> \<not> (length (partialDirtyObjects g) \<noteq> 0)
        \<and> \<not> moving p\<rparr>) g"

text \<open>Lines 181 to 189.\<close>

definition shareEmotes :: "addr \<Rightarrow> game \<Rightarrow> game" where
  "shareEmotes a g =
     (if length (emotes g) > 0
      then updObj a (\<lambda>p. p\<lparr>emotesDirty := True, emotes' := emotes g\<rparr>) g else g)"

definition shareExplosions :: "addr \<Rightarrow> game \<Rightarrow> game" where
  "shareExplosions a g =
     (if length (explosions g) > 0
      then updObj a (\<lambda>p. p\<lparr>explosionsDirty := True, explosions' := explosions g\<rparr>) g else g)"

text \<open>
  Lines 191 to 201: each identity of the session-wide list that the player's visibility
  set includes is pushed on the player's private list, in the order of the list.
\<close>

definition pushFull :: "addr \<Rightarrow> game \<Rightarrow> game" where
  "pushFull a g =
     (if length (fullDirtyObjects g) > 0
      then updObj a (\<lambda>p. p\<lparr>fullObjects := fullObjects p @
             filter (\<lambda>i. i \<in> set (visibleObjects p)) (fullDirtyObjects g)\<rparr>) g
      else g)"

definition pushPartial :: "addr \<Rightarrow> game \<Rightarrow> game" where
  "pushPartial a g =
     (if length (partialDirtyObjects g) > 0
      then updObj a (\<lambda>p. p\<lparr>partialObjects := partialObjects p @
             filter (\<lambda>i. i \<in> set (visibleObjects p)) (partialDirtyObjects g)\<rparr>) g
      else g)"

text \<open>Lines 203 to 207.\<close>

definition sendAll :: "addr \<Rightarrow> game \<Rightarrow> game" where
  "sendAll a g =
     (let g1 = emit (SendPacket a
                 (UpdatePacket (fullObjects (heap g a)) (partialObjects (heap g a)))) g;
          g2 = (if aliveCountDirty g1
                then emit (SendPacket a (AliveCountsPacket (aliveCount g1))) g1 else g1)
      in if length (kills g2) > 0 then sendKills a g2 else g2)"

definition broadcastPlayer :: "addr \<Rightarrow> game \<Rightarrow> game" where
  "broadcastPlayer a g =
     sendAll a (pushPartial a (pushFull a (shareExplosions a (shareEmotes a (setSkip a g)))))"

text \<open>
  Nothing in the body changes \<^verbatim>\<open>connectedPlayers\<close>, so the loop is a fold over the
  array as it stands when the loop starts.
\<close>

definition broadcast :: "game \<Rightarrow> game" where
  "broadcast g = foldl (\<lambda>h a. broadcastPlayer a h) g (connectedPlayers g)"

subsection \<open>Reset and the whole tick (lines 210 to 218)\<close>

definition reset :: "game \<Rightarrow> game" where
  "reset g = g\<lparr>emotes := [], explosions := [], kills := [], fullDirtyObjects := [],
               partialDirtyObjects := [], dirtyPlayers := [], deletedPlayerIds := [],
               aliveCountDirty := False\<rparr>"

text \<open>
  \<^verbatim>\<open>Engine.update\<close> moves the bodies of the physics world, which the session does not
  hold; \<open>collides e\<close> is the narrow phase on the world as that call leaves it.  A throw
  in the first loop leaves the callback: the second loop and the reset do not run.
\<close>

definition tick :: "env \<Rightarrow> (nat \<Rightarrow> int \<times> int) \<Rightarrow> game \<Rightarrow> outcome option" where
  "tick e clock g =
     (case resolverLoop e clock 0 g of
        None \<Rightarrow> None
      | Some (Inl x) \<Rightarrow> Some (Inl x)
      | Some (Inr h) \<Rightarrow> Some (Inr (reset (broadcast h))))"

subsection \<open>Joining and leaving (lines 222 to 260)\<close>

text \<open>
  Modelled from the spec: the constructor of \<^verbatim>\<open>Player\<close> is not among the sources.  A new
  player has the identity and position it is given, the defaults of \<^verbatim>\<open>GameObject\<close>
  (\<^verbatim>\<open>dead = false\<close>), no input intent, no running animation, an empty visibility set and
  empty private buffers.
\<close>

definition newPlayer :: "nat \<Rightarrow> vec \<Rightarrow> body \<Rightarrow> gobj" where
  "newPlayer i pos b =
     \<lparr>cls = Player, id' = i, dead = False, body = Some b, position = pos, direction = (1, 0),
      destructible = False, isDoor = False,
      movingUp = False, movingDown = False, movingLeft = False, movingRight = False,
      moving = False, velocity = (0, 0), shootStart = False, meleeCooldown = 0,
      animActive = False, animType = 0, animSeq = 0, animTime = 0,
      visibleObjects = [], fullObjects = [], partialObjects = [],
      skipObjectCalculations = False, emotesDirty = False, emotes' = [],
      explosionsDirty = False, explosions' = [], quit = False\<rparr>"

text \<open>
  Modelled from the spec: \<^verbatim>\<open>removeFrom\<close> of \<^verbatim>\<open>utils\<close> is not among the sources; it
  removes the object from the collection, and leaves a collection without it as it is.
\<close>

definition removeFrom :: "addr list \<Rightarrow> addr \<Rightarrow> addr list" where
  "removeFrom xs a = remove1 a xs"

text \<open>
  \<^verbatim>\<open>addPlayer\<close>.  The spawn position (fixed in debug mode, random otherwise) and the
  body of the new player are arguments.  The new object gets the reference \<open>nextAddr\<close>.
  The result is the reference returned and the session.
\<close>

definition addPlayer :: "vec \<Rightarrow> body \<Rightarrow> game \<Rightarrow> addr \<times> game" where
  "addPlayer spawnPosition b g =
     (let a = nextAddr g;
          p = newPlayer (length (objects g)) spawnPosition b;
          g1 = g\<lparr>heap := (heap g)(a := p), nextAddr := Suc a\<rparr>;
          g2 = g1\<lparr>objects := objects g1 @ [a], players := players g1 @ [a],
                  connectedPlayers := connectedPlayers g1 @ [a],
                  activePlayers := activePlayers g1 @ [a],
                  dirtyPlayers := dirtyPlayers g1 @ [a],
                  fullDirtyObjects := fullDirtyObjects g1 @ [id' p],
                  aliveCount := aliveCount g1 + 1,
                  aliveCountDirty := True, playerInfosDirty := True\<rparr>;
          g3 = emit (SendPacket a JoinedPacket) g2;
          g4 = updObj a (\<lambda>p. p\<lparr>fullObjects := fullObjects p @ [id' p]\<rparr>) g3;
          g5 = emit (SendData a [MapPacket,
                 UpdatePacket (fullObjects (heap g4 a)) (partialObjects (heap g4 a)),
                 AliveCountsPacket (aliveCount g4)]) g4
      in (a, g5))"

definition removePlayer :: "addr \<Rightarrow> game \<Rightarrow> game" where
  "removePlayer a g =
     (let g1 = updObj a (\<lambda>p. p\<lparr>direction := (1, 0)\<rparr>) g;
          g2 = updObj a (\<lambda>p. p\<lparr>quit := True\<rparr>) g1;
          g3 = g2\<lparr>deletedPlayerIds := deletedPlayerIds g2 @ [id' (heap g2 a)]\<rparr>;
          g4 = g3\<lparr>partialDirtyObjects := partialDirtyObjects g3 @ [id' (heap g3 a)]\<rparr>;
          g5 = g4\<lparr>activePlayers := removeFrom (activePlayers g4) a\<rparr>;
          g6 = g5\<lparr>connectedPlayers := removeFrom (connectedPlayers g5) a\<rparr>
      in if \<not> dead (heap g6 a)
         then g6\<lparr>aliveCount := aliveCount g6 - 1, aliveCountDirty := True\<rparr>
         else g6)"

text \<open>
  The session as the constructor leaves it, before the map has placed anything: every
  collection empty, \<^verbatim>\<open>aliveCount = 0\<close>, both flags false.  \<open>unborn\<close> fills the store
  where no object has been created.
\<close>

definition unborn :: gobj where
  "unborn = (newPlayer 0 (0, 0) 0)\<lparr>cls := Other, body := None\<rparr>"

definition newGame :: game where
  "newGame =
     \<lparr>heap = (\<lambda>_. unborn), nextAddr = 0, objects = [], players = [], connectedPlayers = [],
      activePlayers = [], dirtyPlayers = [], aliveCount = 0, aliveCountDirty = False,
      playerInfosDirty = False, deletedPlayerIds = [], emotes = [], explosions = [],
      kills = [], fullDirtyObjects = [], partialDirtyObjects = [], calls = []\<rparr>"

section \<open>Auxiliary notions\<close>

text \<open>The session an operation leaves behind, whether it returned or threw.\<close>

fun stateOf :: "outcome \<Rightarrow> game" where
  "stateOf (Inl x) = snd x"
| "stateOf (Inr g) = g"

text \<open>The calls of the log that are damage events.\<close>

fun isDamage :: "call \<Rightarrow> bool" where
  "isDamage (Damage t n a) = True"
| "isDamage _ = False"



text \<open>
  What the first loop does, told with the players it processes.  \<open>visits e clock i g as r\<close>:
  started at index \<open>i\<close> on the session \<open>g\<close>, the loop over the live array processes the
  references \<open>as\<close>, in this order, and ends with \<open>r\<close>; it stops when the index is past
  the end of the array as it then stands, or when a turn throws.
\<close>

inductive visits ::
  "env \<Rightarrow> (nat \<Rightarrow> int \<times> int) \<Rightarrow> nat \<Rightarrow> game \<Rightarrow> addr list \<Rightarrow> outcome \<Rightarrow> bool"
  for e :: env and clock :: "nat \<Rightarrow> int \<times> int" where
  past: "\<not> i < length (activePlayers g) \<Longrightarrow> visits e clock i g [] (Inr g)"
| thrown: "i < length (activePlayers g) \<Longrightarrow>
     processPlayer e (clock i) (activePlayers g ! i) g = Inl x \<Longrightarrow>
     visits e clock i g [activePlayers g ! i] (Inl x)"
| turn: "i < length (activePlayers g) \<Longrightarrow>
     processPlayer e (clock i) (activePlayers g ! i) g = Inr h \<Longrightarrow>
     visits e clock (Suc i) h as r \<Longrightarrow>
     visits e clock i g (activePlayers g ! i # as) r"

code_pred visits .

text \<open>The same turns over a list of players fixed in advance.\<close>

fun walk :: "env \<Rightarrow> (nat \<Rightarrow> int \<times> int) \<Rightarrow> nat \<Rightarrow> addr list \<Rightarrow> game \<Rightarrow> outcome" where
  "walk e clock i [] g = Inr g"
| "walk e clock i (a # as) g =
     (case processPlayer e (clock i) a g of
        Inl x \<Rightarrow> Inl x
      | Inr h \<Rightarrow> walk e clock (Suc i) as h)"

text \<open>
  Frame conditions on the methods supplied from outside.  \<open>keeps sel f\<close> says that \<open>f\<close>
  leaves the part \<open>sel\<close> of the session as it was; \<open>envKeeps e sel\<close> says so of
  \<^verbatim>\<open>damage\<close> and \<^verbatim>\<open>interact\<close>, whatever their arguments; \<open>offLog sel\<close> says that the
  part does not look at the log of calls.
\<close>

definition keeps :: "(game \<Rightarrow> 'x) \<Rightarrow> (game \<Rightarrow> game) \<Rightarrow> bool" where
  "keeps sel f = (\<forall>h. sel (f h) = sel h)"

definition envKeeps :: "env \<Rightarrow> (game \<Rightarrow> 'x) \<Rightarrow> bool" where
  "envKeeps e sel =
     ((\<forall>t n s. keeps sel (damage e t n s)) \<and> (\<forall>t s. keeps sel (interact e t s)))"

definition offLog :: "(game \<Rightarrow> 'x) \<Rightarrow> bool" where
  "offLog sel = (\<forall>h cs. sel (h\<lparr>calls := cs\<rparr>) = sel h)"

text \<open>The animation state of a player: active flag, type, sequence, elapsed ticks.\<close>

definition animState :: "gobj \<Rightarrow> bool \<times> int \<times> int \<times> int" where
  "animState p = (animActive p, animType p, animSeq p, animTime p)"

text \<open>The transient buffers are empty and the alive-count flag is down.\<close>

definition cleared :: "game \<Rightarrow> bool" where
  "cleared g = (emotes g = [] \<and> explosions g = [] \<and> kills g = [] \<and> fullDirtyObjects g = []
     \<and> partialDirtyObjects g = [] \<and> dirtyPlayers g = [] \<and> deletedPlayerIds g = []
     \<and> \<not> aliveCountDirty g)"

text \<open>For each object: identity, visibility set and the two private buffers.\<close>

definition bufferView :: "game \<Rightarrow> addr \<Rightarrow> nat \<times> nat list \<times> nat list \<times> nat list" where
  "bufferView h b =
     (id' (heap h b), visibleObjects (heap h b), fullObjects (heap h b), partialObjects (heap h b))"

text \<open>
  The alive count agrees with the active collection: it is the number of entries of
  \<^verbatim>\<open>activePlayers\<close> whose \<^verbatim>\<open>dead\<close> flag is false.
\<close>

definition aliveInv :: "game \<Rightarrow> bool" where
  "aliveInv g = (aliveCount g = int (length (filter (\<lambda>a. \<not> dead (heap g a)) (activePlayers g))))"

text \<open>
  Successive ticks, each run on the session the previous one returned; \<open>clocks k\<close> is the
  clock of the \<open>k\<close>-th tick, counted from 0.  Nothing runs after a tick that threw.
\<close>

fun ticks :: "env \<Rightarrow> (nat \<Rightarrow> nat \<Rightarrow> int \<times> int) \<Rightarrow> nat \<Rightarrow> game \<Rightarrow> outcome option" where
  "ticks e clocks 0 g = Some (Inr g)"
| "ticks e clocks (Suc k) g =
     (case ticks e clocks k g of
        None \<Rightarrow> None
      | Some (Inl x) \<Rightarrow> Some (Inl x)
      | Some (Inr h) \<Rightarrow> tick e (clocks k) h)"

text \<open>
  A small world for concrete runs: four players at the references 0 to 3, the first
  with a pending shoot intent; every weapon has an entry and the probe overlaps the
  bodies 1, 2 and 3 with depths 3/10, 1/2 and 1/2; \<^verbatim>\<open>damage\<close> kills its target and
  \<^verbatim>\<open>interact\<close> does nothing.  \<open>bareEnv\<close> is the same with an empty weapon table.
\<close>

definition demoEnv :: env where
  "demoEnv =
     \<lparr>movementSpeed = 12, diagonalSpeed = 17 / 2, probe = (\<lambda>p. Some 100),
      collides = (\<lambda>b c. if b = 100 \<and> c = 1 then Some (3 / 10)
                          else if b = 100 \<and> (c = 2 \<or> c = 3) then Some (1 / 2) else None),
      damage = (\<lambda>t n s g. updObj t (\<lambda>ob. ob\<lparr>dead := True\<rparr>) g),
      interact = (\<lambda>t s g. g)\<rparr>"


definition demoGame :: game where
  "demoGame =
     newGame\<lparr>heap := (\<lambda>_. unborn)
                (0 := (newPlayer 0 (0, 0) 10)\<lparr>shootStart := True\<rparr>,
                 1 := newPlayer 1 (1, 0) 1,
                 2 := newPlayer 2 (1, 1) 2,
                 3 := newPlayer 3 (0, 1) 3),
             nextAddr := 4, objects := [0, 1, 2, 3], players := [0, 1, 2, 3],
             connectedPlayers := [0, 1, 2, 3], activePlayers := [0, 1, 2, 3],
             aliveCount := 4\<rparr>"

text \<open>A clock for concrete runs: 33 ms per step, one ms between the two readings.\<close>

definition demoClock :: "nat \<Rightarrow> int \<times> int" where
  "demoClock k = (1000 + 33 * int k, 1001 + 33 * int k)"

text \<open>Clocks for concrete runs: the ticks are 33 ms apart.\<close>

definition demoClocks :: "nat \<Rightarrow> nat \<Rightarrow> int \<times> int" where
  "demoClocks k i = (1000 + 33 * int k, 1001 + 33 * int k)"

text \<open>A fresh session after one \<^verbatim>\<open>addPlayer\<close>, and the same after its player has asked to shoot.\<close>

definition joined :: game where
  "joined = snd (addPlayer (0, 0) 0 newGame)"

definition armed :: game where
  "armed = updObj 0 (\<lambda>p. p\<lparr>shootStart := True\<rparr>) joined"

text \<open>
  The small world again, with the player at reference 1 seeing the identities 0 and 2;
  and that world after the first loop of one tick.
\<close>

definition arena :: game where
  "arena = updObj 1 (\<lambda>p. p\<lparr>visibleObjects := [0, 2]\<rparr>) demoGame"

definition arenaPass :: game where
  "arenaPass = stateOf (walk demoEnv demoClock 0 [0, 1, 2, 3] arena)"

text \<open>
  The turns of a run over the references \<open>as\<close> that reach the animation block, in order:
  each with the player processed and the value of \<^verbatim>\<open>p.animActive\<close> that line 162 reads.
  A turn that throws reaches no animation block and ends the run.
\<close>

fun turns :: "env \<Rightarrow> (nat \<Rightarrow> int \<times> int) \<Rightarrow> nat \<Rightarrow> addr list \<Rightarrow> game \<Rightarrow> (addr \<times> bool) list" where
  "turns e clock i [] g = []"
| "turns e clock i (a # as) g =
     (case shoot e (clock i) a (updObj a (movement (movementSpeed e) (diagonalSpeed e)) g) of
        Inl x \<Rightarrow> []
      | Inr g2 \<Rightarrow> (a, animActive (heap g2 a)) # turns e clock (Suc i) as (animate a g2))"

text \<open>
  The world of \<open>demoEnv\<close> with nothing in reach of any probe, and the small world after
  the first loop of one tick in it.
\<close>

definition thinAir :: env where
  "thinAir = demoEnv\<lparr>collides := (\<lambda>b c. None)\<rparr>"

definition missPass :: game where
  "missPass = stateOf (walk thinAir demoClock 0 [0, 1, 2, 3] demoGame)"

text \<open>
  The session at the start of the \<open>k\<close>-th tick, counted from 0, of the one-player session
  \<open>armed\<close> in the world of \<open>demoEnv\<close>.
\<close>

definition demoRun :: "nat \<Rightarrow> game" where
  "demoRun k = (case ticks demoEnv demoClocks k armed of Some r \<Rightarrow> stateOf r | None \<Rightarrow> armed)"

section \<open>Properties\<close>

subsection \<open>Movement\<close>

lemma movement_velocity:
  "velocity (movement s ds p) =
     velocityTable s ds (movingUp p) (movingDown p) (movingLeft p) (movingRight p)"
  by (simp add: movement_def velocityTable_def setVelocity_def Let_def)

text \<open>
  Claim C5.  The velocity written for a player by the movement step is the value of the
  fixed table at the player's four direction flags, and the table checks the diagonals
  first: up with left gives \<open>(- diagonalSpeed, diagonalSpeed)\<close> whatever the other two
  flags are, down alone gives \<open>(0, - speed)\<close>, no input gives \<open>(0, 0)\<close>, and the other
  diagonals and single directions give their configured speeds.
\<close>

theorem movement_table:
  "velocity (heap (updObj a (movement s ds) g) a) =
     velocityTable s ds (movingUp (heap g a)) (movingDown (heap g a))
       (movingLeft (heap g a)) (movingRight (heap g a))
   \<and> velocityTable s ds True down True right = (- ds, ds)
   \<and> velocityTable s ds True down False True = (ds, ds)
   \<and> velocityTable s ds False True True right = (- ds, - ds)
   \<and> velocityTable s ds False True False True = (ds, - ds)
   \<and> velocityTable s ds True down False False = (0, s)
   \<and> velocityTable s ds False True False False = (0, - s)
   \<and> velocityTable s ds False False True right = (- s, 0)
   \<and> velocityTable s ds False False False True = (s, 0)
   \<and> velocityTable s ds False False False False = (0, 0)"
  by (simp add: movement_velocity updObj_def velocityTable_def)

subsection \<open>Basic facts\<close>

lemma heap_updObj: "heap (updObj a f g) b = (if b = a then f (heap g a) else heap g b)"
  by (simp add: updObj_def)

lemma calls_updObj [simp]: "calls (updObj a f g) = calls g"
  by (simp add: updObj_def)

lemma activePlayers_updObj [simp]: "activePlayers (updObj a f g) = activePlayers g"
  by (simp add: updObj_def)

lemma animate_calls [simp]: "calls (animate a g) = calls g"
  by (simp add: animate_def updObj_def Let_def)

lemma animate_shootStart [simp]: "shootStart (heap (animate a g) b) = shootStart (heap g b)"
  by (simp add: animate_def updObj_def Let_def animAdvance_def)

lemma animate_meleeCooldown [simp]:
  "meleeCooldown (heap (animate a g) b) = meleeCooldown (heap g b)"
  by (simp add: animate_def updObj_def Let_def animAdvance_def)

lemma activePlayers_animate [simp]: "activePlayers (animate a g) = activePlayers g"
  by (simp add: animate_def updObj_def Let_def)

lemma movement_shootStart [simp]: "shootStart (movement s ds p) = shootStart p"
  by (simp add: movement_def setVelocity_def Let_def)

lemma movement_meleeCooldown [simp]: "meleeCooldown (movement s ds p) = meleeCooldown p"
  by (simp add: movement_def setVelocity_def Let_def)

lemma calls_callDamage: "calls (callDamage e t n a g) = calls g @ [Damage t n a]"
  by (simp add: callDamage_def)

lemma calls_callInteract: "calls (callInteract e t a g) = calls g @ [Interact t a]"
  by (simp add: callInteract_def)

subsection \<open>The melee block, case by case\<close>


lemma strike_miss:
  "probe e (heap g a) = Some pb \<Longrightarrow> closest e g a pb = None \<Longrightarrow> strike e a g = Inr g"
  by (simp add: strike_def)

lemma strike_hit:
  "probe e (heap g a) = Some pb \<Longrightarrow> closest e g a pb = Some t \<Longrightarrow>
     strike e a g =
       Inr (if cls (heap (callDamage e t 24 a g) t) = Obstacle \<and> isDoor (heap (callDamage e t 24 a g) t)
            then callInteract e t a (callDamage e t 24 a g)
            else callDamage e t 24 a g)"
  by (simp add: strike_def Let_def)

lemma strike_keeps:
  assumes "envKeeps e sel" and "offLog sel"
  shows "sel (stateOf (strike e a g)) = sel g"
  using assms
  by (simp add: strike_def callDamage_def callInteract_def envKeeps_def keeps_def offLog_def
      Let_def split: option.splits)

lemma damage_calls_strike:
  "filter isDamage (calls (stateOf (strike e a g))) =
     filter isDamage (calls g) @
       (case probe e (heap g a) of
          None \<Rightarrow> []
        | Some pb \<Rightarrow> (case closest e g a pb of None \<Rightarrow> [] | Some t \<Rightarrow> [Damage t 24 a]))"
  by (simp add: strike_def Let_def calls_callDamage calls_callInteract split: option.splits)

lemma shoot_resolve:
  assumes "shootStart (heap g a)" and "250 \<le> fst now - meleeCooldown (heap g a)"
  shows "shoot e now a g =
           strike e a (updObj a startPunch (updObj a (\<lambda>p. p\<lparr>meleeCooldown := snd now\<rparr>)
             (updObj a (\<lambda>p. p\<lparr>shootStart := False\<rparr>) g)))"
  using assms by (simp add: shoot_def updObj_def Let_def)

lemma shoot_discard:
  assumes "shootStart (heap g a)" and "fst now - meleeCooldown (heap g a) < 250"
  shows "shoot e now a g = Inr (updObj a (\<lambda>p. p\<lparr>shootStart := False\<rparr>) g)"
  using assms by (simp add: shoot_def updObj_def Let_def)

lemma shoot_idle: "\<not> shootStart (heap g a) \<Longrightarrow> shoot e now a g = Inr g"
  by (simp add: shoot_def)

lemma processPlayer_idle:
  "\<not> shootStart (heap g a) \<Longrightarrow>
     processPlayer e now a g =
       Inr (animate a (updObj a (movement (movementSpeed e) (diagonalSpeed e)) g))"
  by (simp add: processPlayer_def shoot_idle heap_updObj)

lemma processPlayer_Inr:
  "processPlayer e now a g = Inr h \<Longrightarrow>
     \<exists>g2. shoot e now a (updObj a (movement (movementSpeed e) (diagonalSpeed e)) g) = Inr g2
        \<and> h = animate a g2"
  by (auto simp: processPlayer_def split: sum.splits)

lemma processPlayer_Inl:
  "processPlayer e now a g = Inl x \<Longrightarrow>
     shoot e now a (updObj a (movement (movementSpeed e) (diagonalSpeed e)) g) = Inl x"
  by (auto simp: processPlayer_def split: sum.splits)

subsection \<open>Shoot intent\<close>


lemma demo_attacker:
  "shootStart (heap demoGame 0)" "meleeCooldown (heap demoGame 0) = 0" "calls demoGame = []"
  by (simp_all add: demoGame_def newPlayer_def newGame_def)


subsection \<open>The melee target\<close>













subsection \<open>Joining, leaving and the alive count\<close>

lemma joined_facts:
  "activePlayers joined = [0]" "connectedPlayers joined = [0]" "aliveCount joined = 1"
  "\<not> dead (heap joined 0)" "fullDirtyObjects joined = [0]" "partialDirtyObjects joined = []"
  "objects joined = [0]" "id' (heap joined 0) = 0" "visibleObjects (heap joined 0) = []"
  "fullObjects (heap joined 0) = [0]" "partialObjects (heap joined 0) = []"
  "aliveCountDirty joined" "dirtyPlayers joined = [0]" "deletedPlayerIds joined = []"
  by (simp_all add: joined_def addPlayer_def newGame_def newPlayer_def updObj_def emit_def Let_def)

lemma removePlayer_aliveCount:
  "aliveCount (removePlayer a g) = (if dead (heap g a) then aliveCount g else aliveCount g - 1)"
  by (simp add: removePlayer_def updObj_def Let_def)

lemma removePlayer_dead: "dead (heap (removePlayer a g) b) = dead (heap g b)"
  by (simp add: removePlayer_def updObj_def Let_def)

lemma removePlayer_active: "activePlayers (removePlayer a g) = remove1 a (activePlayers g)"
  by (simp add: removePlayer_def updObj_def Let_def removeFrom_def)

lemma length_filter_remove1:
  "a \<in> set xs \<Longrightarrow> P a \<Longrightarrow> length (filter P xs) = Suc (length (filter P (remove1 a xs)))"
  by (induction xs) auto

lemma filter_remove1_not: "\<not> P a \<Longrightarrow> filter P (remove1 a xs) = filter P xs"
  by (induction xs) auto

lemma addPlayer_aliveCount: "aliveCount (snd (addPlayer pos b g)) = aliveCount g + 1"
  by (simp add: addPlayer_def updObj_def emit_def Let_def)

lemma addPlayer_active: "activePlayers (snd (addPlayer pos b g)) = activePlayers g @ [nextAddr g]"
  by (simp add: addPlayer_def updObj_def emit_def Let_def)

lemma addPlayer_dead:
  "dead (heap (snd (addPlayer pos b g)) x) = (if x = nextAddr g then False else dead (heap g x))"
  by (simp add: addPlayer_def updObj_def emit_def Let_def newPlayer_def)

text \<open>
  Claim C3, as amended.  If the alive count agrees with the active collection before the
  call, it agrees after \<^verbatim>\<open>addPlayer\<close> (the new object's reference being fresh), and after
  \<^verbatim>\<open>removePlayer(p)\<close> when \<open>p\<close> is in \<^verbatim>\<open>activePlayers\<close> or is dead.  When \<open>p\<close> is
  neither, for instance a player already removed, the call decrements the count and
  removes nothing, and the two disagree afterwards.
\<close>

theorem alive_count_kept:
  assumes "aliveInv g"
  shows "(nextAddr g \<notin> set (activePlayers g) \<longrightarrow> aliveInv (snd (addPlayer pos b g)))
       \<and> (a \<in> set (activePlayers g) \<or> dead (heap g a) \<longrightarrow> aliveInv (removePlayer a g))
       \<and> (a \<notin> set (activePlayers g) \<and> \<not> dead (heap g a) \<longrightarrow> \<not> aliveInv (removePlayer a g))"
proof (intro conjI impI)
  assume fresh: "nextAddr g \<notin> set (activePlayers g)"
  have "filter (\<lambda>x. \<not> dead (heap (snd (addPlayer pos b g)) x)) (activePlayers g)
          = filter (\<lambda>x. \<not> dead (heap g x)) (activePlayers g)"
    using fresh by (intro filter_cong) (auto simp: addPlayer_dead)
  then show "aliveInv (snd (addPlayer pos b g))"
    using assms by (simp add: aliveInv_def addPlayer_aliveCount addPlayer_active addPlayer_dead)
next
  assume h: "a \<in> set (activePlayers g) \<or> dead (heap g a)"
  show "aliveInv (removePlayer a g)"
  proof (cases "dead (heap g a)")
    case True
    then show ?thesis
      using assms
      by (simp add: aliveInv_def removePlayer_aliveCount removePlayer_active removePlayer_dead
          filter_remove1_not)
  next
    case False
    with h have "a \<in> set (activePlayers g)" by simp
    from length_filter_remove1 [OF this, of "\<lambda>x. \<not> dead (heap g x)"] False
    show ?thesis
      using assms
      by (simp add: aliveInv_def removePlayer_aliveCount removePlayer_active removePlayer_dead)
  qed
next
  assume h: "a \<notin> set (activePlayers g) \<and> \<not> dead (heap g a)"
  then have "remove1 a (activePlayers g) = activePlayers g" by (simp add: remove1_idem)
  with h assms show "\<not> aliveInv (removePlayer a g)"
    by (simp add: aliveInv_def removePlayer_aliveCount removePlayer_active removePlayer_dead)
qed

lemma aliveInv_joined: "aliveInv joined"
  by (simp add: aliveInv_def joined_facts)

lemma joined_nextAddr: "nextAddr joined = 1"
  by (simp_all add: joined_def addPlayer_def newGame_def newPlayer_def updObj_def emit_def Let_def)

theorem alive_count_kept_witness:
  "aliveInv (snd (addPlayer (3, 4) 1 joined)) \<and> aliveInv (removePlayer 0 joined)
   \<and> \<not> aliveInv (removePlayer 0 (removePlayer 0 joined))"
proof -
  have 1: "nextAddr joined \<notin> set (activePlayers joined)"
    by (simp add: joined_facts joined_nextAddr)
  have 2: "0 \<in> set (activePlayers joined) \<or> dead (heap joined 0)"
    by (simp add: joined_facts)
  have 3: "aliveInv (removePlayer 0 joined)"
    using alive_count_kept [OF aliveInv_joined, where a = 0] 2 by blast
  have 4: "0 \<notin> set (activePlayers (removePlayer 0 joined)) \<and> \<not> dead (heap (removePlayer 0 joined) 0)"
    by (simp add: removePlayer_active removePlayer_dead joined_facts)
  show ?thesis
    using alive_count_kept [OF aliveInv_joined, of "(3, 4)" 1 0] alive_count_kept [OF 3, where a = 0] 1 2 4
    by blast
qed

text \<open>
  Against claim C3 as stated: join one player on a fresh session and remove it twice.
  The active collection is empty and the alive count is \<open>-1\<close>.
\<close>

theorem alive_count_counterexample:
  "aliveCount (removePlayer 0 (removePlayer 0 joined)) = - 1
   \<and> filter (\<lambda>a. \<not> dead (heap (removePlayer 0 (removePlayer 0 joined)) a))
        (activePlayers (removePlayer 0 (removePlayer 0 joined))) = []
   \<and> \<not> aliveInv (removePlayer 0 (removePlayer 0 joined))"
  by (simp add: aliveInv_def removePlayer_aliveCount removePlayer_active removePlayer_dead joined_facts)

text \<open>
  Claim C4, as amended.  \<^verbatim>\<open>removePlayer(p)\<close> decrements the alive count exactly when
  \<^verbatim>\<open>p.dead\<close> is false, and does not change that flag; it tests nothing else.  So two
  calls in succession leave the count alone for a dead player and decrement it twice for
  a player that is not dead.
\<close>

theorem remove_guard:
  "aliveCount (removePlayer a g) = (if dead (heap g a) then aliveCount g else aliveCount g - 1)
   \<and> dead (heap (removePlayer a g) a) = dead (heap g a)
   \<and> aliveCount (removePlayer a (removePlayer a g)) =
       (if dead (heap g a) then aliveCount g else aliveCount g - 2)"
  by (simp add: removePlayer_aliveCount removePlayer_dead)

text \<open>
  Against claim C4 as stated: after one join the count is 1, after the first removal 0,
  after the second removal \<open>-1\<close>: the second call changes it again.
\<close>

theorem remove_twice_counterexample:
  "aliveCount joined = 1 \<and> aliveCount (removePlayer 0 joined) = 0
   \<and> aliveCount (removePlayer 0 (removePlayer 0 joined)) = - 1"
  by (simp add: removePlayer_aliveCount removePlayer_dead joined_facts)

subsection \<open>Cooldown\<close>

lemma shoot_no_resolve:
  "\<not> (shootStart (heap g a) \<and> 250 \<le> fst now - meleeCooldown (heap g a)) \<Longrightarrow>
     \<exists>h. shoot e now a g = Inr h \<and> calls h = calls g"
  by (cases "shootStart (heap g a)") (simp_all add: shoot_discard shoot_idle)

lemma shoot_no_resolve_calls:
  "\<not> (shootStart (heap g a) \<and> 250 \<le> fst now - meleeCooldown (heap g a)) \<Longrightarrow>
     calls (stateOf (shoot e now a g)) = calls g"
  using shoot_no_resolve [of g a now e] by auto

lemma shoot_damage_le:
  "length (filter isDamage (calls (stateOf (shoot e now a g))))
     \<le> Suc (length (filter isDamage (calls g)))"
proof (cases "shootStart (heap g a) \<and> 250 \<le> fst now - meleeCooldown (heap g a)")
  case True
  then show ?thesis
    by (simp add: shoot_resolve damage_calls_strike split: option.splits)
next
  case False
  then show ?thesis by (simp add: shoot_no_resolve_calls)
qed

lemma shoot_resolve_cooldown:
  assumes "envKeeps e (\<lambda>h. meleeCooldown (heap h a))"
    and "shootStart (heap g a)" and "250 \<le> fst now - meleeCooldown (heap g a)"
  shows "meleeCooldown (heap (stateOf (shoot e now a g)) a) = snd now"
proof -
  have "offLog (\<lambda>h. meleeCooldown (heap h a))" by (simp add: offLog_def)
  from strike_keeps [OF assms(1) this]
  show ?thesis
    by (simp add: shoot_resolve [OF assms(2,3)] heap_updObj startPunch_def)
qed

text \<open>
  Claim C6.  Let a player be processed with the readings \<open>now\<close> and later, from a state
  \<open>g'\<close> that has the cooldown timestamp and the damage calls as the first processing left
  them, with the readings \<open>now'\<close>, the two tests of line 113 being less than 250 ms apart.
  Provided \<^verbatim>\<open>damage\<close> and \<^verbatim>\<open>interact\<close> leave the player's timestamp alone and the clock
  does not run backwards between lines 113 and 114, the two processings together add at
  most one damage call.  An attack that does not resolve, because the flag is not set or
  fewer than 250 ms have passed, makes no call; an attack that resolves stores the
  reading of line 114 as the new timestamp.  All of this holds of the session the melee
  block leaves, whether it returns or throws.
\<close>

theorem melee_cooldown:
  assumes "envKeeps e (\<lambda>h. meleeCooldown (heap h a))"
    and "fst now \<le> snd now"
    and "fst now' - fst now < 250"
    and "meleeCooldown (heap g' a) = meleeCooldown (heap (stateOf (shoot e now a g)) a)"
    and "filter isDamage (calls g') = filter isDamage (calls (stateOf (shoot e now a g)))"
  shows "length (filter isDamage (calls (stateOf (shoot e now' a g'))))
           \<le> Suc (length (filter isDamage (calls g)))
       \<and> (\<not> (shootStart (heap g a) \<and> 250 \<le> fst now - meleeCooldown (heap g a)) \<longrightarrow>
            calls (stateOf (shoot e now a g)) = calls g)
       \<and> (shootStart (heap g a) \<and> 250 \<le> fst now - meleeCooldown (heap g a) \<longrightarrow>
            meleeCooldown (heap (stateOf (shoot e now a g)) a) = snd now)"
proof (intro conjI impI)
  show "length (filter isDamage (calls (stateOf (shoot e now' a g'))))
          \<le> Suc (length (filter isDamage (calls g)))"
  proof (cases "shootStart (heap g a) \<and> 250 \<le> fst now - meleeCooldown (heap g a)")
    case True
    then have "meleeCooldown (heap (stateOf (shoot e now a g)) a) = snd now"
      using assms(1) by (simp add: shoot_resolve_cooldown)
    with assms(2,3,4) have "fst now' - meleeCooldown (heap g' a) < 250" by simp
    then have "calls (stateOf (shoot e now' a g')) = calls g'"
      by (intro shoot_no_resolve_calls) simp
    with assms(5) show ?thesis by (simp add: shoot_damage_le)
  next
    case False
    then have "calls (stateOf (shoot e now a g)) = calls g" by (rule shoot_no_resolve_calls)
    with assms(5) shoot_damage_le [of e now' a g'] show ?thesis by simp
  qed
next
  assume "\<not> (shootStart (heap g a) \<and> 250 \<le> fst now - meleeCooldown (heap g a))"
  then show "calls (stateOf (shoot e now a g)) = calls g" by (rule shoot_no_resolve_calls)
next
  assume "shootStart (heap g a) \<and> 250 \<le> fst now - meleeCooldown (heap g a)"
  then show "meleeCooldown (heap (stateOf (shoot e now a g)) a) = snd now"
    using assms(1) by (simp add: shoot_resolve_cooldown)
qed

lemma demo_keeps_cooldown: "envKeeps demoEnv (\<lambda>h. meleeCooldown (heap h 0))"
  by (simp add: envKeeps_def keeps_def demoEnv_def heap_updObj)

theorem melee_cooldown_witness:
  "length (filter isDamage (calls (stateOf (shoot demoEnv (1100, 1101) 0
      (updObj 0 (\<lambda>p. p\<lparr>shootStart := True\<rparr>) (stateOf (shoot demoEnv (1000, 1001) 0 demoGame)))))))
     \<le> Suc 0
   \<and> meleeCooldown (heap (stateOf (shoot demoEnv (1000, 1001) 0 demoGame)) 0) = 1001"
proof -
  have 1: "fst (1000 :: int, 1001 :: int) \<le> snd (1000 :: int, 1001 :: int)" by simp
  have 2: "fst (1100 :: int, 1101 :: int) - fst (1000 :: int, 1001 :: int) < 250" by simp
  have 3: "meleeCooldown (heap (updObj 0 (\<lambda>p. p\<lparr>shootStart := True\<rparr>)
              (stateOf (shoot demoEnv (1000, 1001) 0 demoGame))) 0) =
           meleeCooldown (heap (stateOf (shoot demoEnv (1000, 1001) 0 demoGame)) 0)"
    by (simp add: heap_updObj)
  have 4: "filter isDamage (calls (updObj 0 (\<lambda>p. p\<lparr>shootStart := True\<rparr>)
              (stateOf (shoot demoEnv (1000, 1001) 0 demoGame)))) =
           filter isDamage (calls (stateOf (shoot demoEnv (1000, 1001) 0 demoGame)))"
    by simp
  from melee_cooldown [OF demo_keeps_cooldown 1 2 3 4]
  show ?thesis by (simp add: demo_attacker)
qed

subsection \<open>The first loop and the players it processes\<close>

lemma visits_loop: "visits e clock i g as r \<Longrightarrow> resolverLoop e clock i g = Some r"
proof (induction rule: visits.induct)
  case (past i g)
  then show ?case by (subst resolverLoop.simps) simp
next
  case (thrown i g x)
  then show ?case by (subst resolverLoop.simps) simp
next
  case (turn i g h as r)
  then show ?case by (subst resolverLoop.simps) simp
qed

lemma loop_visits:
  assumes "resolverLoop e clock i g = Some r"
  shows "\<exists>as. visits e clock i g as r"
proof (rule resolverLoop.raw_induct [where P = "\<lambda>e clock i g r. \<exists>as. visits e clock i g as r",
      OF _ assms])
  fix rl e clock i g r
  assume ih: "\<And>e clock i g r. rl e clock i g = Some r \<Longrightarrow> \<exists>as. visits e clock i g as r"
    and body: "(if i < length (activePlayers g)
        then (case processPlayer e (clock i) (activePlayers g ! i) g of
                Inl x \<Rightarrow> Some (Inl x)
              | Inr h \<Rightarrow> rl e clock (Suc i) h)
        else Some (Inr g)) = Some r"
  show "\<exists>as. visits e clock i g as r"
  proof (cases "i < length (activePlayers g)")
    case False
    with body have "r = Inr g" by simp
    with False show ?thesis by (auto intro: visits.past)
  next
    case True
    show ?thesis
    proof (cases "processPlayer e (clock i) (activePlayers g ! i) g")
      case (Inl x)
      with True body have "r = Inl x" by simp
      with True Inl show ?thesis by (auto intro: visits.thrown)
    next
      case (Inr h)
      with True body have "rl e clock (Suc i) h = Some r" by simp
      from ih [OF this] obtain as where "visits e clock (Suc i) h as r" by blast
      with True Inr show ?thesis by (auto intro: visits.turn)
    qed
  qed
qed

lemma visits_walk: "visits e clock i g as r \<Longrightarrow> walk e clock i as g = r"
  by (induction rule: visits.induct) simp_all

lemma tick_visits:
  "visits e clock 0 g as (Inr g1) \<Longrightarrow> tick e clock g = Some (Inr (reset (broadcast g1)))"
  "visits e clock 0 g as (Inl x) \<Longrightarrow> tick e clock g = Some (Inl x)"
  by (simp_all add: tick_def visits_loop)

lemma tick_Inr:
  assumes "tick e clock g = Some (Inr g')"
  shows "\<exists>as g1. visits e clock 0 g as (Inr g1) \<and> g' = reset (broadcast g1)"
proof -
  from assms obtain g1 where "resolverLoop e clock 0 g = Some (Inr g1)" "g' = reset (broadcast g1)"
    by (auto simp: tick_def split: option.splits sum.splits)
  with loop_visits [of e clock 0 g "Inr g1"] show ?thesis by blast
qed

text \<open>Helpers for worlds whose methods leave the active collection alone.\<close>

lemma processPlayer_active:
  assumes "envKeeps e activePlayers"
  shows "activePlayers (stateOf (processPlayer e now a g)) = activePlayers g"
proof -
  let ?g1 = "updObj a (movement (movementSpeed e) (diagonalSpeed e)) g"
  have off: "offLog activePlayers" by (simp add: offLog_def)
  have "activePlayers (stateOf (shoot e now a ?g1)) = activePlayers g"
  proof (cases "shootStart (heap ?g1 a) \<and> 250 \<le> fst now - meleeCooldown (heap ?g1 a)")
    case True
    then show ?thesis
      using strike_keeps [OF assms off] by (simp add: shoot_resolve)
  next
    case False
    then show ?thesis
      by (cases "shootStart (heap ?g1 a)") (simp_all add: shoot_discard shoot_idle)
  qed
  then show ?thesis
    by (cases "shoot e now a ?g1") (simp_all add: processPlayer_def)
qed

lemma walk_visits:
  assumes "envKeeps e activePlayers"
  shows "as = drop i (activePlayers g) \<Longrightarrow> walk e clock i as g = Inr g1 \<Longrightarrow>
           visits e clock i g as (Inr g1)"
proof (induction as arbitrary: i g)
  case Nil
  then have "\<not> i < length (activePlayers g)" by simp
  with Nil show ?case by (auto intro: visits.past)
next
  case (Cons a as)
  from Cons.prems(1) have i: "i < length (activePlayers g)"
    by (metis drop_eq_Nil list.distinct(1) not_le)
  with Cons.prems(1) have a: "a = activePlayers g ! i" and as: "as = drop (Suc i) (activePlayers g)"
    by (simp_all add: Cons_nth_drop_Suc [symmetric])
  from Cons.prems(2) obtain h where h: "processPlayer e (clock i) a g = Inr h"
    "walk e clock (Suc i) as h = Inr g1"
    by (auto split: sum.splits)
  from processPlayer_active [OF assms, of "clock i" a g] h(1)
  have "activePlayers h = activePlayers g" by simp
  with as have "as = drop (Suc i) (activePlayers h)" by simp
  from Cons.IH [OF this h(2)] have "visits e clock (Suc i) h as (Inr g1)" .
  with i h(1) a show ?case by (auto intro: visits.turn)
qed

lemma processPlayer_returns:
  assumes "\<forall>p. probe e p \<noteq> None"
  shows "\<exists>h. processPlayer e now a g = Inr h"
proof -
  have st: "\<exists>h. strike e a g' = Inr h" for g'
  proof -
    from assms have "probe e (heap g' a) \<noteq> None" by blast
    then obtain pb where "probe e (heap g' a) = Some pb" by blast
    then show ?thesis by (simp add: strike_def Let_def split: option.splits)
  qed
  have sh: "\<exists>h. shoot e now a g' = Inr h" for g'
    using st by (simp add: shoot_def Let_def)
  from sh [of "updObj a (movement (movementSpeed e) (diagonalSpeed e)) g"]
  obtain g2 where "shoot e now a (updObj a (movement (movementSpeed e) (diagonalSpeed e)) g) = Inr g2"
    by blast
  then show ?thesis by (simp add: processPlayer_def)
qed

lemma walk_returns:
  assumes "\<forall>p. probe e p \<noteq> None"
  shows "\<exists>g1. walk e clock i as g = Inr g1"
proof (induction as arbitrary: i g)
  case Nil
  show ?case by simp
next
  case (Cons a as)
  from processPlayer_returns [OF assms, of "clock i" a g]
  obtain h where "processPlayer e (clock i) a g = Inr h" by blast
  with Cons.IH [of "Suc i" h] show ?case by simp
qed

lemma demo_keeps_active: "envKeeps demoEnv activePlayers"
  by (simp add: envKeeps_def keeps_def demoEnv_def)

lemma demo_probe_total: "\<forall>p. probe demoEnv p \<noteq> None"
  by (simp add: demoEnv_def)

lemma demo_visits:
  "\<exists>g1. visits demoEnv clock 0 g (activePlayers g) (Inr g1)"
proof -
  from walk_returns [OF demo_probe_total, of clock 0 "activePlayers g" g]
  obtain g1 where "walk demoEnv clock 0 (activePlayers g) g = Inr g1" by blast
  with walk_visits [OF demo_keeps_active, of "activePlayers g" 0 g clock g1]
  show ?thesis by auto
qed

subsection \<open>The second loop, field by field\<close>

lemma emit_fields [simp]:
  "heap (emit c g) = heap g" "fullDirtyObjects (emit c g) = fullDirtyObjects g"
  "partialDirtyObjects (emit c g) = partialDirtyObjects g" "kills (emit c g) = kills g"
  "aliveCountDirty (emit c g) = aliveCountDirty g" "aliveCount (emit c g) = aliveCount g"
  "emotes (emit c g) = emotes g" "explosions (emit c g) = explosions g"
  "activePlayers (emit c g) = activePlayers g" "connectedPlayers (emit c g) = connectedPlayers g"
  by (simp_all add: emit_def)

lemma updObj_fields [simp]:
  "fullDirtyObjects (updObj a f g) = fullDirtyObjects g"
  "partialDirtyObjects (updObj a f g) = partialDirtyObjects g" "kills (updObj a f g) = kills g"
  "aliveCountDirty (updObj a f g) = aliveCountDirty g" "aliveCount (updObj a f g) = aliveCount g"
  "emotes (updObj a f g) = emotes g" "explosions (updObj a f g) = explosions g"
  "connectedPlayers (updObj a f g) = connectedPlayers g"
  by (simp_all add: updObj_def)

lemma foldl_emit_fields:
  "heap (foldl (\<lambda>h k. emit (c k) h) g ks) = heap g"
  "fullDirtyObjects (foldl (\<lambda>h k. emit (c k) h) g ks) = fullDirtyObjects g"
  "partialDirtyObjects (foldl (\<lambda>h k. emit (c k) h) g ks) = partialDirtyObjects g"
  "connectedPlayers (foldl (\<lambda>h k. emit (c k) h) g ks) = connectedPlayers g"
  "activePlayers (foldl (\<lambda>h k. emit (c k) h) g ks) = activePlayers g"
  by (induction ks arbitrary: g) simp_all

lemma sendKills_fields [simp]:
  "heap (sendKills a g) = heap g" "fullDirtyObjects (sendKills a g) = fullDirtyObjects g"
  "partialDirtyObjects (sendKills a g) = partialDirtyObjects g"
  "connectedPlayers (sendKills a g) = connectedPlayers g"
  "activePlayers (sendKills a g) = activePlayers g"
  by (simp_all add: sendKills_def foldl_emit_fields)

lemma setSkip_fields [simp]:
  "fullDirtyObjects (setSkip a g) = fullDirtyObjects g"
  "partialDirtyObjects (setSkip a g) = partialDirtyObjects g"
  "emotes (setSkip a g) = emotes g" "explosions (setSkip a g) = explosions g"
  "connectedPlayers (setSkip a g) = connectedPlayers g"
  by (simp_all add: setSkip_def)

lemma shareEmotes_fields [simp]:
  "fullDirtyObjects (shareEmotes a g) = fullDirtyObjects g"
  "partialDirtyObjects (shareEmotes a g) = partialDirtyObjects g"
  "explosions (shareEmotes a g) = explosions g"
  "connectedPlayers (shareEmotes a g) = connectedPlayers g"
  by (simp_all add: shareEmotes_def)

lemma shareExplosions_fields [simp]:
  "fullDirtyObjects (shareExplosions a g) = fullDirtyObjects g"
  "partialDirtyObjects (shareExplosions a g) = partialDirtyObjects g"
  "connectedPlayers (shareExplosions a g) = connectedPlayers g"
  by (simp_all add: shareExplosions_def)

lemma pushFull_fields [simp]:
  "fullDirtyObjects (pushFull a g) = fullDirtyObjects g"
  "partialDirtyObjects (pushFull a g) = partialDirtyObjects g"
  "connectedPlayers (pushFull a g) = connectedPlayers g"
  by (simp_all add: pushFull_def)

lemma pushPartial_fields [simp]:
  "fullDirtyObjects (pushPartial a g) = fullDirtyObjects g"
  "partialDirtyObjects (pushPartial a g) = partialDirtyObjects g"
  "connectedPlayers (pushPartial a g) = connectedPlayers g"
  by (simp_all add: pushPartial_def)

lemma sendAll_fields [simp]:
  "heap (sendAll a g) = heap g"
  "fullDirtyObjects (sendAll a g) = fullDirtyObjects g"
  "partialDirtyObjects (sendAll a g) = partialDirtyObjects g"
  "connectedPlayers (sendAll a g) = connectedPlayers g"
  by (simp_all add: sendAll_def Let_def)

lemma broadcastPlayer_dirty:
  "fullDirtyObjects (broadcastPlayer a g) = fullDirtyObjects g"
  "partialDirtyObjects (broadcastPlayer a g) = partialDirtyObjects g"
  "connectedPlayers (broadcastPlayer a g) = connectedPlayers g"
  by (simp_all add: broadcastPlayer_def)

lemma bufferView_updObj:
  assumes "\<And>p. id' (f p) = id' p" "\<And>p. visibleObjects (f p) = visibleObjects p"
    "\<And>p. fullObjects (f p) = fullObjects p" "\<And>p. partialObjects (f p) = partialObjects p"
  shows "bufferView (updObj a f g) = bufferView g"
  using assms by (auto simp: bufferView_def fun_eq_iff heap_updObj)

lemma step_bufferView:
  "bufferView (setSkip a g) = bufferView g"
  "bufferView (shareEmotes a g) = bufferView g"
  "bufferView (shareExplosions a g) = bufferView g"
  "bufferView (sendAll a g) = bufferView g"
  by (simp_all add: setSkip_def shareEmotes_def shareExplosions_def bufferView_updObj)
     (simp add: bufferView_def fun_eq_iff)

lemma pushFull_heap:
  "heap (pushFull a g) b =
     (if b = a then (heap g a)\<lparr>fullObjects := fullObjects (heap g a) @
              filter (\<lambda>i. i \<in> set (visibleObjects (heap g a))) (fullDirtyObjects g)\<rparr>
      else heap g b)"
  by (simp add: pushFull_def heap_updObj)

lemma pushPartial_heap:
  "heap (pushPartial a g) b =
     (if b = a then (heap g a)\<lparr>partialObjects := partialObjects (heap g a) @
              filter (\<lambda>i. i \<in> set (visibleObjects (heap g a))) (partialDirtyObjects g)\<rparr>
      else heap g b)"
  by (simp add: pushPartial_def heap_updObj)

lemma broadcastPlayer_bufferView:
  "bufferView (broadcastPlayer a g) b =
     (id' (heap g b), visibleObjects (heap g b),
      fullObjects (heap g b) @
        (if b = a then filter (\<lambda>i. i \<in> set (visibleObjects (heap g a))) (fullDirtyObjects g) else []),
      partialObjects (heap g b) @
        (if b = a then filter (\<lambda>i. i \<in> set (visibleObjects (heap g a))) (partialDirtyObjects g) else []))"
proof -
  let ?g3 = "shareExplosions a (shareEmotes a (setSkip a g))"
  have 3: "bufferView ?g3 = bufferView g" by (simp add: step_bufferView)
  have d: "fullDirtyObjects ?g3 = fullDirtyObjects g" "partialDirtyObjects ?g3 = partialDirtyObjects g"
    by simp_all
  have "bufferView (broadcastPlayer a g) b = bufferView (pushPartial a (pushFull a ?g3)) b"
    by (simp add: broadcastPlayer_def step_bufferView)
  also have "\<dots> = (id' (heap ?g3 b), visibleObjects (heap ?g3 b),
      fullObjects (heap ?g3 b) @
        (if b = a then filter (\<lambda>i. i \<in> set (visibleObjects (heap ?g3 a))) (fullDirtyObjects g) else []),
      partialObjects (heap ?g3 b) @
        (if b = a then filter (\<lambda>i. i \<in> set (visibleObjects (heap ?g3 a))) (partialDirtyObjects g) else []))"
    using d by (simp add: bufferView_def pushPartial_heap pushFull_heap)
  finally show ?thesis
    using 3 by (simp add: bufferView_def fun_eq_iff)
qed

lemma broadcastPlayer_buffers:
  "id' (heap (broadcastPlayer a g) b) = id' (heap g b)"
  "visibleObjects (heap (broadcastPlayer a g) b) = visibleObjects (heap g b)"
  "fullObjects (heap (broadcastPlayer a g) b) = fullObjects (heap g b) @
     (if b = a then filter (\<lambda>i. i \<in> set (visibleObjects (heap g a))) (fullDirtyObjects g) else [])"
  "partialObjects (heap (broadcastPlayer a g) b) = partialObjects (heap g b) @
     (if b = a then filter (\<lambda>i. i \<in> set (visibleObjects (heap g a))) (partialDirtyObjects g) else [])"
  using broadcastPlayer_bufferView [of a g b] by (simp_all add: bufferView_def)

lemma step_active [simp]:
  "activePlayers (setSkip a g) = activePlayers g"
  "activePlayers (shareEmotes a g) = activePlayers g"
  "activePlayers (shareExplosions a g) = activePlayers g"
  "activePlayers (pushFull a g) = activePlayers g"
  "activePlayers (pushPartial a g) = activePlayers g"
  "activePlayers (sendAll a g) = activePlayers g"
  by (simp_all add: setSkip_def shareEmotes_def shareExplosions_def pushFull_def pushPartial_def
        sendAll_def Let_def)

lemma animState_movement [simp]: "animState (movement s ds p) = animState p"
  by (simp add: movement_def setVelocity_def Let_def animState_def)

lemma step_anim [simp]:
  "animState (heap (setSkip a g) b) = animState (heap g b)"
  "animState (heap (shareEmotes a g) b) = animState (heap g b)"
  "animState (heap (shareExplosions a g) b) = animState (heap g b)"
  "animState (heap (pushFull a g) b) = animState (heap g b)"
  "animState (heap (pushPartial a g) b) = animState (heap g b)"
  by (simp_all add: setSkip_def shareEmotes_def shareExplosions_def pushFull_def pushPartial_def
        heap_updObj animState_def)

lemma broadcastPlayer_other:
  "animState (heap (broadcastPlayer a g) b) = animState (heap g b)"
  "activePlayers (broadcastPlayer a g) = activePlayers g"
  by (simp_all add: broadcastPlayer_def)

lemma broadcast_fold_other:
  "animState (heap (foldl (\<lambda>h a. broadcastPlayer a h) g as) b) = animState (heap g b)"
  "activePlayers (foldl (\<lambda>h a. broadcastPlayer a h) g as) = activePlayers g"
  by (induction as arbitrary: g) (simp_all add: broadcastPlayer_other)

lemma heap_reset [simp]: "heap (reset g) = heap g"
  by (simp add: reset_def)

lemma broadcast_other:
  "animState (heap (broadcast g) b) = animState (heap g b)"
  "activePlayers (broadcast g) = activePlayers g"
  by (simp_all add: broadcast_def broadcast_fold_other)

subsection \<open>The reset\<close>

lemma cleared_reset: "cleared (reset g)"
  by (simp add: cleared_def reset_def)

lemma joined_idle:
  "\<not> shootStart (heap joined 0)" "\<not> animActive (heap joined 0)" "meleeCooldown (heap joined 0) = 0"
  "calls joined = [SendPacket 0 JoinedPacket, SendData 0 [MapPacket, UpdatePacket [0] [], AliveCountsPacket 1]]"
  by (simp_all add: joined_def addPlayer_def newGame_def newPlayer_def updObj_def emit_def Let_def)

text \<open>
  Claim C9, as amended.  Whenever the tick callback runs to its end, the emote, explosion
  and kill lists, the two dirty-object lists, the dirty-player list and the deleted-id
  list are empty and the alive-count flag is false.  The buffers do carry state into the
  next tick when a player joins or leaves in between: on a cleared session \<^verbatim>\<open>addPlayer\<close>
  leaves the new identity in \<^verbatim>\<open>fullDirtyObjects\<close>, the new player in \<^verbatim>\<open>dirtyPlayers\<close> and
  the flag raised, and \<^verbatim>\<open>removePlayer\<close> leaves the identity in \<^verbatim>\<open>deletedPlayerIds\<close> and
  \<^verbatim>\<open>partialDirtyObjects\<close>.
\<close>

theorem tick_clears:
  "(\<forall>g'. tick e clock g = Some (Inr g') \<longrightarrow> cleared g')
   \<and> (cleared g \<longrightarrow>
        fullDirtyObjects (snd (addPlayer pos b g)) = [length (objects g)]
        \<and> dirtyPlayers (snd (addPlayer pos b g)) = [nextAddr g]
        \<and> aliveCountDirty (snd (addPlayer pos b g))
        \<and> deletedPlayerIds (removePlayer a g) = [id' (heap g a)]
        \<and> partialDirtyObjects (removePlayer a g) = [id' (heap g a)])"
proof (intro conjI allI impI)
  fix g' assume "tick e clock g = Some (Inr g')"
  then obtain g1 where "g' = reset (broadcast g1)"
    using tick_Inr by blast
  then show "cleared g'" by (simp add: cleared_reset)
qed (simp_all add: cleared_def addPlayer_def removePlayer_def updObj_def emit_def Let_def newPlayer_def)

theorem tick_clears_witness:
  "(\<exists>g'. tick demoEnv demoClock demoGame = Some (Inr g') \<and> cleared g')
   \<and> fullDirtyObjects (snd (addPlayer (3, 4) 1 (reset joined))) = [1]
   \<and> dirtyPlayers (snd (addPlayer (3, 4) 1 (reset joined))) = [1]
   \<and> aliveCountDirty (snd (addPlayer (3, 4) 1 (reset joined)))
   \<and> deletedPlayerIds (removePlayer 0 (reset joined)) = [0]
   \<and> partialDirtyObjects (removePlayer 0 (reset joined)) = [0]"
proof -
  from demo_visits [of demoClock demoGame] obtain g1
    where "visits demoEnv demoClock 0 demoGame (activePlayers demoGame) (Inr g1)" by blast
  then have t: "tick demoEnv demoClock demoGame = Some (Inr (reset (broadcast g1)))"
    by (rule tick_visits)
  with tick_clears [of demoEnv demoClock demoGame] have "cleared (reset (broadcast g1))"
    by blast
  with t have 1: "\<exists>g'. tick demoEnv demoClock demoGame = Some (Inr g') \<and> cleared g'" by blast
  have 2: "length (objects (reset joined)) = 1" "nextAddr (reset joined) = 1"
    "id' (heap (reset joined) 0) = 0"
    by (simp_all add: reset_def joined_facts joined_nextAddr)
  from tick_clears [of _ _ "reset joined" "(3, 4)" 1 0] cleared_reset [of joined]
  have "fullDirtyObjects (snd (addPlayer (3, 4) 1 (reset joined))) = [length (objects (reset joined))]
        \<and> dirtyPlayers (snd (addPlayer (3, 4) 1 (reset joined))) = [nextAddr (reset joined)]
        \<and> aliveCountDirty (snd (addPlayer (3, 4) 1 (reset joined)))
        \<and> deletedPlayerIds (removePlayer 0 (reset joined)) = [id' (heap (reset joined) 0)]
        \<and> partialDirtyObjects (removePlayer 0 (reset joined)) = [id' (heap (reset joined) 0)]"
    by blast
  with 1 2 show ?thesis by simp
qed

text \<open>
  Against claim C9 as stated: the first tick of a fresh session returns it unchanged; a
  player then joins, and the next tick begins with \<^verbatim>\<open>fullDirtyObjects\<close> and
  \<^verbatim>\<open>dirtyPlayers\<close> holding an entry and the alive-count flag raised.
\<close>

theorem tick_clears_counterexample:
  "tick demoEnv demoClock newGame = Some (Inr newGame)
   \<and> fullDirtyObjects (snd (addPlayer (0, 0) 0 newGame)) = [0]
   \<and> dirtyPlayers (snd (addPlayer (0, 0) 0 newGame)) = [0]
   \<and> aliveCountDirty (snd (addPlayer (0, 0) 0 newGame))"
proof -
  have "resolverLoop demoEnv demoClock 0 newGame = Some (Inr newGame)"
    by (subst resolverLoop.simps) (simp add: newGame_def)
  moreover have "reset (broadcast newGame) = newGame"
    by (simp add: broadcast_def reset_def newGame_def)
  ultimately have "tick demoEnv demoClock newGame = Some (Inr newGame)"
    by (simp add: tick_def)
  then show ?thesis
    using joined_facts by (simp add: joined_def)
qed

subsection \<open>Private buffers and the visibility set\<close>

lemma bufferView_shoot:
  assumes "envKeeps e bufferView"
  shows "bufferView (stateOf (shoot e now a g)) = bufferView g"
proof (cases "shootStart (heap g a) \<and> 250 \<le> fst now - meleeCooldown (heap g a)")
  case True
  have "offLog bufferView" by (simp add: offLog_def bufferView_def fun_eq_iff)
  from strike_keeps [OF assms this] True show ?thesis
    by (simp add: shoot_resolve bufferView_updObj startPunch_def)
next
  case False
  then show ?thesis
    by (cases "shootStart (heap g a)") (simp_all add: shoot_discard shoot_idle bufferView_updObj)
qed

lemma bufferView_movement:
  "bufferView (updObj a (movement s ds) g) = bufferView g"
  by (rule bufferView_updObj) (simp_all add: movement_def setVelocity_def Let_def)

lemma bufferView_animate:
  "bufferView (animate a g) b =
     (id' (heap g b), visibleObjects (heap g b),
      fullObjects (heap g b) @ (if b = a \<and> animActive (heap g a) then [id' (heap g a)] else []),
      partialObjects (heap g b) @ (if b = a \<and> \<not> animActive (heap g a) then [id' (heap g a)] else []))"
  by (simp add: bufferView_def animate_def heap_updObj Let_def animAdvance_def)

lemma bufferView_before_animate:
  assumes "envKeeps e bufferView"
  shows "bufferView (stateOf (shoot e now a (updObj a (movement (movementSpeed e) (diagonalSpeed e)) g)))
           = bufferView g"
  using bufferView_shoot [OF assms, of now a "updObj a (movement (movementSpeed e) (diagonalSpeed e)) g"]
  by (simp add: bufferView_movement)

lemma processPlayer_buffers:
  assumes "envKeeps e bufferView"
    and "shoot e now a (updObj a (movement (movementSpeed e) (diagonalSpeed e)) g) = Inr g2"
  shows "processPlayer e now a g = Inr (animate a g2)"
    and "bufferView (animate a g2) b =
     (id' (heap g b), visibleObjects (heap g b),
      fullObjects (heap g b) @ (if b = a \<and> animActive (heap g2 a) then [id' (heap g a)] else []),
      partialObjects (heap g b) @ (if b = a \<and> \<not> animActive (heap g2 a) then [id' (heap g a)] else []))"
proof -
  show "processPlayer e now a g = Inr (animate a g2)"
    using assms(2) by (simp add: processPlayer_def)
  from bufferView_before_animate [OF assms(1), of now a g] assms(2)
  have "bufferView g2 = bufferView g" by simp
  then have "id' (heap g2 c) = id' (heap g c)" "visibleObjects (heap g2 c) = visibleObjects (heap g c)"
    "fullObjects (heap g2 c) = fullObjects (heap g c)"
    "partialObjects (heap g2 c) = partialObjects (heap g c)" for c
    by (simp_all add: bufferView_def fun_eq_iff)
  then show "bufferView (animate a g2) b =
     (id' (heap g b), visibleObjects (heap g b),
      fullObjects (heap g b) @ (if b = a \<and> animActive (heap g2 a) then [id' (heap g a)] else []),
      partialObjects (heap g b) @ (if b = a \<and> \<not> animActive (heap g2 a) then [id' (heap g a)] else []))"
    by (simp add: bufferView_animate)
qed

lemma processPlayer_thrown_buffers:
  assumes "envKeeps e bufferView" and "processPlayer e now a g = Inl x"
  shows "bufferView (snd x) = bufferView g"
  using bufferView_before_animate [OF assms(1), of now a g] processPlayer_Inl [OF assms(2)]
  by simp

text \<open>
  What a run has pushed on the two private buffers of the object \<open>b\<close>: its identity, on
  the full buffer once for each of its turns that found the animation active and on the
  partial buffer once for each that found it idle.
\<close>

lemma visits_buffers:
  assumes "envKeeps e bufferView"
  shows "visits e clock i g as r \<Longrightarrow>
     id' (heap (stateOf r) b) = id' (heap g b)
     \<and> visibleObjects (heap (stateOf r) b) = visibleObjects (heap g b)
     \<and> fullObjects (heap (stateOf r) b) =
         fullObjects (heap g b) @ replicate (count_list (turns e clock i as g) (b, True)) (id' (heap g b))
     \<and> partialObjects (heap (stateOf r) b) =
         partialObjects (heap g b) @ replicate (count_list (turns e clock i as g) (b, False)) (id' (heap g b))"
proof (induction rule: visits.induct)
  case (past i g)
  show ?case by simp
next
  case (thrown i g x)
  from processPlayer_thrown_buffers [OF assms thrown(2)]
  have "bufferView (snd x) b = bufferView g b" by simp
  with processPlayer_Inl [OF thrown(2)] show ?case
    by (simp add: bufferView_def)
next
  case (turn i g h as r)
  let ?a = "activePlayers g ! i"
  from processPlayer_Inr [OF turn(2)] obtain g2
    where g2: "shoot e (clock i) ?a (updObj ?a (movement (movementSpeed e) (diagonalSpeed e)) g) = Inr g2"
      and h: "h = animate ?a g2" by blast
  from processPlayer_buffers(2) [OF assms g2, of b] h
  have hb: "id' (heap h b) = id' (heap g b)" "visibleObjects (heap h b) = visibleObjects (heap g b)"
    "fullObjects (heap h b) =
       fullObjects (heap g b) @ (if b = ?a \<and> animActive (heap g2 ?a) then [id' (heap g ?a)] else [])"
    "partialObjects (heap h b) =
       partialObjects (heap g b) @ (if b = ?a \<and> \<not> animActive (heap g2 ?a) then [id' (heap g ?a)] else [])"
    by (simp_all add: bufferView_def)
  have ts: "turns e clock i (?a # as) g = (?a, animActive (heap g2 ?a)) # turns e clock (Suc i) as h"
    using g2 h by simp
  from turn.IH hb show ?case
    unfolding ts by (auto simp: replicate_append_same)
qed

lemma visits_turns:
  "visits e clock i g as r \<Longrightarrow> \<not> isl r \<Longrightarrow> map fst (turns e clock i as g) = as"
proof (induction rule: visits.induct)
  case (past i g)
  show ?case by simp
next
  case (thrown i g x)
  then show ?case by simp
next
  case (turn i g h as r)
  from processPlayer_Inr [OF turn(2)] turn(4) turn(5) show ?case by auto
qed

text \<open>The second loop: the filtered dirty list, once for each entry of the player in
  \<^verbatim>\<open>connectedPlayers\<close>.\<close>

lemma broadcast_fold_exact:
  "id' (heap (foldl (\<lambda>h a. broadcastPlayer a h) g cs) b) = id' (heap g b)
   \<and> visibleObjects (heap (foldl (\<lambda>h a. broadcastPlayer a h) g cs) b) = visibleObjects (heap g b)
   \<and> fullDirtyObjects (foldl (\<lambda>h a. broadcastPlayer a h) g cs) = fullDirtyObjects g
   \<and> partialDirtyObjects (foldl (\<lambda>h a. broadcastPlayer a h) g cs) = partialDirtyObjects g
   \<and> fullObjects (heap (foldl (\<lambda>h a. broadcastPlayer a h) g cs) b) =
       fullObjects (heap g b) @
         concat (replicate (count_list cs b)
           (filter (\<lambda>i. i \<in> set (visibleObjects (heap g b))) (fullDirtyObjects g)))
   \<and> partialObjects (heap (foldl (\<lambda>h a. broadcastPlayer a h) g cs) b) =
       partialObjects (heap g b) @
         concat (replicate (count_list cs b)
           (filter (\<lambda>i. i \<in> set (visibleObjects (heap g b))) (partialDirtyObjects g)))"
proof (induction cs arbitrary: g)
  case Nil
  show ?case by simp
next
  case (Cons a cs)
  show ?case
    using Cons.IH [of "broadcastPlayer a g"]
    by (simp add: broadcastPlayer_buffers broadcastPlayer_dirty)
qed

lemma broadcast_exact:
  "id' (heap (broadcast g) b) = id' (heap g b)"
  "visibleObjects (heap (broadcast g) b) = visibleObjects (heap g b)"
  "fullObjects (heap (broadcast g) b) =
       fullObjects (heap g b) @
         concat (replicate (count_list (connectedPlayers g) b)
           (filter (\<lambda>i. i \<in> set (visibleObjects (heap g b))) (fullDirtyObjects g)))"
  "partialObjects (heap (broadcast g) b) =
       partialObjects (heap g b) @
         concat (replicate (count_list (connectedPlayers g) b)
           (filter (\<lambda>i. i \<in> set (visibleObjects (heap g b))) (partialDirtyObjects g)))"
  using broadcast_fold_exact [of g "connectedPlayers g" b] by (simp_all add: broadcast_def)

lemma tick_Inl:
  assumes "tick e clock g = Some (Inl x)"
  shows "\<exists>as. visits e clock 0 g as (Inl x)"
proof -
  from assms have "resolverLoop e clock 0 g = Some (Inl x)"
    by (auto simp: tick_def split: option.splits sum.splits)
  with loop_visits [of e clock 0 g "Inl x"] show ?thesis by blast
qed

lemma reset_buffers [simp]:
  "visibleObjects (heap (reset g) b) = visibleObjects (heap g b)"
  "fullObjects (heap (reset g) b) = fullObjects (heap g b)"
  "partialObjects (heap (reset g) b) = partialObjects (heap g b)"
  by simp_all

text \<open>
  Claim C1, as amended.  The assumption is on the two methods that are not part of
  \<^verbatim>\<open>game.ts\<close>: \<^verbatim>\<open>damage\<close> and \<^verbatim>\<open>interact\<close> leave the identity, the visibility set and the
  two private buffers of every object as they are.

  \<^item> One processing of a player \<open>a\<close> by the first loop that reaches the animation block
    (line 162) with the session \<open>g2\<close> appends exactly one identity to exactly one private
    buffer in the whole session: the identity of \<open>a\<close>, to the \<^verbatim>\<open>fullObjects\<close> of \<open>a\<close> when
    line 162 finds the animation active and to the \<^verbatim>\<open>partialObjects\<close> of \<open>a\<close> when it
    finds it idle.  The visibility set is not consulted.
  \<^item> A tick whose first loop processes the references \<open>as\<close> and ends normally with \<open>g1\<close>
    returns, every turn having reached the animation block, and for every object \<open>b\<close> the
    visibility set is unchanged, and its \<^verbatim>\<open>fullObjects\<close> at the end of the tick is its
    \<^verbatim>\<open>fullObjects\<close> at the start, followed by its own identity once for each of its turns
    that found the animation active, followed, once for each entry of \<open>b\<close> in
    \<^verbatim>\<open>connectedPlayers\<close>, by the identities of \<^verbatim>\<open>fullDirtyObjects\<close> that are members of
    the visibility set of \<open>b\<close>, in the order of the dirty list; likewise \<^verbatim>\<open>partialObjects\<close>
    with the idle turns and \<^verbatim>\<open>partialDirtyObjects\<close>.  So the second loop delivers nothing
    outside the visibility set, and the first loop delivers the player's own identity
    whether or not it is a member.
  \<^item> A tick whose first loop throws throws; the buffers then hold what the turns before the
    throw pushed, and nothing from the second loop.
  \<^item> Every outcome of a tick is one of these two.
\<close>

theorem visibility_scope:
  assumes "envKeeps e bufferView"
  shows
    "(\<forall>now a g2.
        shoot e now a (updObj a (movement (movementSpeed e) (diagonalSpeed e)) g) = Inr g2 \<longrightarrow>
          processPlayer e now a g = Inr (animate a g2)
          \<and> (\<forall>b. bufferView (animate a g2) b =
               (id' (heap g b), visibleObjects (heap g b),
                fullObjects (heap g b) @
                  (if b = a \<and> animActive (heap g2 a) then [id' (heap g a)] else []),
                partialObjects (heap g b) @
                  (if b = a \<and> \<not> animActive (heap g2 a) then [id' (heap g a)] else []))))
     \<and> (\<forall>as g1. visits e clock 0 g as (Inr g1) \<longrightarrow>
          tick e clock g = Some (Inr (reset (broadcast g1)))
          \<and> map fst (turns e clock 0 as g) = as
          \<and> (\<forall>b. visibleObjects (heap (reset (broadcast g1)) b) = visibleObjects (heap g b)
               \<and> fullObjects (heap (reset (broadcast g1)) b) =
                   fullObjects (heap g b)
                   @ replicate (count_list (turns e clock 0 as g) (b, True)) (id' (heap g b))
                   @ concat (replicate (count_list (connectedPlayers g1) b)
                       (filter (\<lambda>i. i \<in> set (visibleObjects (heap g b))) (fullDirtyObjects g1)))
               \<and> partialObjects (heap (reset (broadcast g1)) b) =
                   partialObjects (heap g b)
                   @ replicate (count_list (turns e clock 0 as g) (b, False)) (id' (heap g b))
                   @ concat (replicate (count_list (connectedPlayers g1) b)
                       (filter (\<lambda>i. i \<in> set (visibleObjects (heap g b))) (partialDirtyObjects g1)))))
     \<and> (\<forall>as x. visits e clock 0 g as (Inl x) \<longrightarrow>
          tick e clock g = Some (Inl x)
          \<and> (\<forall>b. visibleObjects (heap (snd x) b) = visibleObjects (heap g b)
               \<and> fullObjects (heap (snd x) b) =
                   fullObjects (heap g b)
                   @ replicate (count_list (turns e clock 0 as g) (b, True)) (id' (heap g b))
               \<and> partialObjects (heap (snd x) b) =
                   partialObjects (heap g b)
                   @ replicate (count_list (turns e clock 0 as g) (b, False)) (id' (heap g b))))
     \<and> (\<forall>g'. tick e clock g = Some (Inr g') \<longrightarrow>
          (\<exists>as g1. visits e clock 0 g as (Inr g1) \<and> g' = reset (broadcast g1)))
     \<and> (\<forall>x. tick e clock g = Some (Inl x) \<longrightarrow> (\<exists>as. visits e clock 0 g as (Inl x)))"
proof (intro conjI allI impI)
  fix now a g2 b
  assume s: "shoot e now a (updObj a (movement (movementSpeed e) (diagonalSpeed e)) g) = Inr g2"
  show "processPlayer e now a g = Inr (animate a g2)"
    by (rule processPlayer_buffers(1) [OF assms s])
  show "bufferView (animate a g2) b =
               (id' (heap g b), visibleObjects (heap g b),
                fullObjects (heap g b) @
                  (if b = a \<and> animActive (heap g2 a) then [id' (heap g a)] else []),
                partialObjects (heap g b) @
                  (if b = a \<and> \<not> animActive (heap g2 a) then [id' (heap g a)] else []))"
    by (rule processPlayer_buffers(2) [OF assms s])
next
  fix as g1 b
  assume v: "visits e clock 0 g as (Inr g1)"
  show "tick e clock g = Some (Inr (reset (broadcast g1)))"
    by (rule tick_visits(1) [OF v])
  show "map fst (turns e clock 0 as g) = as"
    using visits_turns [OF v] by simp
  from visits_buffers [OF assms v, of b]
  have g1: "id' (heap g1 b) = id' (heap g b)" "visibleObjects (heap g1 b) = visibleObjects (heap g b)"
    "fullObjects (heap g1 b) =
       fullObjects (heap g b) @ replicate (count_list (turns e clock 0 as g) (b, True)) (id' (heap g b))"
    "partialObjects (heap g1 b) =
       partialObjects (heap g b) @ replicate (count_list (turns e clock 0 as g) (b, False)) (id' (heap g b))"
    by simp_all
  show "visibleObjects (heap (reset (broadcast g1)) b) = visibleObjects (heap g b)"
    by (simp add: broadcast_exact g1)
  show "fullObjects (heap (reset (broadcast g1)) b) =
          fullObjects (heap g b)
          @ replicate (count_list (turns e clock 0 as g) (b, True)) (id' (heap g b))
          @ concat (replicate (count_list (connectedPlayers g1) b)
              (filter (\<lambda>i. i \<in> set (visibleObjects (heap g b))) (fullDirtyObjects g1)))"
    by (simp add: broadcast_exact g1)
  show "partialObjects (heap (reset (broadcast g1)) b) =
          partialObjects (heap g b)
          @ replicate (count_list (turns e clock 0 as g) (b, False)) (id' (heap g b))
          @ concat (replicate (count_list (connectedPlayers g1) b)
              (filter (\<lambda>i. i \<in> set (visibleObjects (heap g b))) (partialDirtyObjects g1)))"
    by (simp add: broadcast_exact g1)
next
  fix as x b
  assume v: "visits e clock 0 g as (Inl x)"
  show "tick e clock g = Some (Inl x)"
    by (rule tick_visits(2) [OF v])
  from visits_buffers [OF assms v, of b]
  show "visibleObjects (heap (snd x) b) = visibleObjects (heap g b)"
    "fullObjects (heap (snd x) b) =
       fullObjects (heap g b)
       @ replicate (count_list (turns e clock 0 as g) (b, True)) (id' (heap g b))"
    "partialObjects (heap (snd x) b) =
       partialObjects (heap g b)
       @ replicate (count_list (turns e clock 0 as g) (b, False)) (id' (heap g b))"
    by simp_all
next
  fix g' assume "tick e clock g = Some (Inr g')"
  then show "\<exists>as g1. visits e clock 0 g as (Inr g1) \<and> g' = reset (broadcast g1)"
    by (rule tick_Inr)
next
  fix x assume "tick e clock g = Some (Inl x)"
  then show "\<exists>as. visits e clock 0 g as (Inl x)"
    by (rule tick_Inl)
qed

lemma demo_keeps_buffers: "envKeeps demoEnv bufferView"
  by (simp add: envKeeps_def keeps_def demoEnv_def bufferView_updObj)

lemma arena_facts:
  "activePlayers arena = [0, 1, 2, 3]" "visibleObjects (heap arena (Suc 0)) = [0, 2]"
  "visibleObjects (heap arena 0) = []"
  "fullObjects (heap arena b) = []" "partialObjects (heap arena b) = []"
  "id' (heap arena 0) = 0" "id' (heap arena (Suc 0)) = 1"
  by (simp_all add: arena_def demoGame_def newGame_def newPlayer_def unborn_def updObj_def)

lemma arena_walk:
  "walk demoEnv demoClock 0 [0, 1, 2, 3] arena = Inr arenaPass"
proof -
  from walk_returns [OF demo_probe_total, of demoClock 0 "[0, 1, 2, 3]" arena]
  obtain g1 where "walk demoEnv demoClock 0 [0, 1, 2, 3] arena = Inr g1" by blast
  then show ?thesis by (simp add: arenaPass_def)
qed

lemma arena_visits: "visits demoEnv demoClock 0 arena [0, 1, 2, 3] (Inr arenaPass)"
proof -
  have "[0, 1, 2, 3] = drop 0 (activePlayers arena)" by (simp add: arena_facts)
  from walk_visits [OF demo_keeps_active this arena_walk] show ?thesis .
qed

lemma arenaPass_eval:
  "fullDirtyObjects arenaPass = [0]" "partialDirtyObjects arenaPass = [1, 2, 3]"
  "connectedPlayers arenaPass = [0, 1, 2, 3]"
  "calls arenaPass = [Damage 2 24 0]"
  by (simp_all add: arenaPass_def arena_def demoGame_def demoEnv_def demoClock_def newGame_def
      newPlayer_def unborn_def processPlayer_def shoot_def strike_def closest_def hitDepth_def
      callDamage_def callInteract_def animate_def animAdvance_def startPunch_def movement_def
      setVelocity_def updObj_def Let_def)

lemma arena_turns:
  "turns demoEnv demoClock 0 [0, 1, 2, 3] arena = [(0, True), (1, False), (2, False), (3, False)]"
  by (simp add: arena_def demoGame_def demoEnv_def demoClock_def newGame_def
      newPlayer_def unborn_def shoot_def strike_def closest_def hitDepth_def
      callDamage_def callInteract_def animate_def animAdvance_def startPunch_def movement_def
      setVelocity_def updObj_def Let_def)

theorem visibility_scope_witness:
  "tick demoEnv demoClock arena = Some (Inr (reset (broadcast arenaPass)))
   \<and> turns demoEnv demoClock 0 [0, 1, 2, 3] arena = [(0, True), (1, False), (2, False), (3, False)]
   \<and> fullDirtyObjects arenaPass = [0] \<and> partialDirtyObjects arenaPass = [1, 2, 3]
   \<and> visibleObjects (heap (reset (broadcast arenaPass)) 1) = [0, 2]
   \<and> fullObjects (heap (reset (broadcast arenaPass)) 1) = [0]
   \<and> partialObjects (heap (reset (broadcast arenaPass)) 1) = [1, 2]
   \<and> visibleObjects (heap (reset (broadcast arenaPass)) 0) = []
   \<and> fullObjects (heap (reset (broadcast arenaPass)) 0) = [0]
   \<and> partialObjects (heap (reset (broadcast arenaPass)) 0) = []"
proof -
  note vs = visibility_scope [OF demo_keeps_buffers, where clock = demoClock and g = arena]
  from vs arena_visits
  have t: "tick demoEnv demoClock arena = Some (Inr (reset (broadcast arenaPass)))"
    by blast
  from vs arena_visits
  have "\<forall>b. visibleObjects (heap (reset (broadcast arenaPass)) b) = visibleObjects (heap arena b)
      \<and> fullObjects (heap (reset (broadcast arenaPass)) b) =
          fullObjects (heap arena b)
          @ replicate (count_list (turns demoEnv demoClock 0 [0, 1, 2, 3] arena) (b, True)) (id' (heap arena b))
          @ concat (replicate (count_list (connectedPlayers arenaPass) b)
              (filter (\<lambda>i. i \<in> set (visibleObjects (heap arena b))) (fullDirtyObjects arenaPass)))
      \<and> partialObjects (heap (reset (broadcast arenaPass)) b) =
          partialObjects (heap arena b)
          @ replicate (count_list (turns demoEnv demoClock 0 [0, 1, 2, 3] arena) (b, False)) (id' (heap arena b))
          @ concat (replicate (count_list (connectedPlayers arenaPass) b)
              (filter (\<lambda>i. i \<in> set (visibleObjects (heap arena b))) (partialDirtyObjects arenaPass)))"
    by blast
  then have b: "visibleObjects (heap (reset (broadcast arenaPass)) (Suc 0)) = [0, 2]"
    "fullObjects (heap (reset (broadcast arenaPass)) (Suc 0)) = [0]"
    "partialObjects (heap (reset (broadcast arenaPass)) (Suc 0)) = [1, 2]"
    "visibleObjects (heap (reset (broadcast arenaPass)) 0) = []"
    "fullObjects (heap (reset (broadcast arenaPass)) 0) = [0]"
    "partialObjects (heap (reset (broadcast arenaPass)) 0) = []"
    unfolding arena_turns by (simp_all add: arena_facts arenaPass_eval)
  from t b show ?thesis unfolding arena_turns by (simp add: arenaPass_eval)
qed

lemma joined_visits:
  "visits demoEnv clock 0 joined [0]
     (Inr (animate 0 (updObj 0 (movement (movementSpeed demoEnv) (diagonalSpeed demoEnv)) joined)))"
proof -
  let ?h = "animate 0 (updObj 0 (movement (movementSpeed demoEnv) (diagonalSpeed demoEnv)) joined)"
  have p: "processPlayer demoEnv (clock 0) (activePlayers joined ! 0) joined = Inr ?h"
    by (simp add: joined_facts processPlayer_idle joined_idle)
  have "activePlayers ?h = [0]" by (simp add: animate_def Let_def joined_facts)
  then have "visits demoEnv clock (Suc 0) ?h [] (Inr ?h)"
    by (simp add: visits.past)
  from visits.turn [OF _ p this] show ?thesis by (simp add: joined_facts)
qed

lemma joined_processed:
  "fullDirtyObjects (animate 0 (updObj 0 (movement s ds) joined)) = [0]"
  "partialDirtyObjects (animate 0 (updObj 0 (movement s ds) joined)) = [0]"
  "bufferView (animate 0 (updObj 0 (movement s ds) joined)) 0 = (0, [], [0], [0])"
  "connectedPlayers (animate 0 (updObj 0 (movement s ds) joined)) = [0]"
proof -
  have a: "\<not> animActive (heap (updObj 0 (movement s ds) joined) 0)"
    using animState_movement [of s ds "heap joined 0"] joined_idle(2)
    by (simp add: heap_updObj animState_def)
  have b: "bufferView (updObj 0 (movement s ds) joined) = bufferView joined"
    by (rule bufferView_movement)
  then have c: "id' (heap (updObj 0 (movement s ds) joined) 0) = 0"
    "visibleObjects (heap (updObj 0 (movement s ds) joined) 0) = []"
    "fullObjects (heap (updObj 0 (movement s ds) joined) 0) = [0]"
    "partialObjects (heap (updObj 0 (movement s ds) joined) 0) = []"
    by (simp_all add: bufferView_def fun_eq_iff joined_facts)
  show "fullDirtyObjects (animate 0 (updObj 0 (movement s ds) joined)) = [0]"
    "partialDirtyObjects (animate 0 (updObj 0 (movement s ds) joined)) = [0]"
    using a c(1) by (simp_all add: animate_def Let_def joined_facts)
  show "bufferView (animate 0 (updObj 0 (movement s ds) joined)) 0 = (0, [], [0], [0])"
    using a c by (simp add: bufferView_def animate_def Let_def heap_updObj)
  show "connectedPlayers (animate 0 (updObj 0 (movement s ds) joined)) = [0]"
    by (simp add: animate_def Let_def joined_facts)
qed

text \<open>
  Against claim C1 as stated: the player of \<open>joined\<close> is connected and its visibility set
  is empty; the tick returns and has appended the identity 0 to its \<^verbatim>\<open>partialObjects\<close>.
\<close>

theorem visibility_counterexample:
  "connectedPlayers joined = [0] \<and> visibleObjects (heap joined 0) = []
   \<and> partialObjects (heap joined 0) = []
   \<and> (\<exists>h. tick demoEnv demoClock joined = Some (Inr h)
         \<and> visibleObjects (heap h 0) = [] \<and> partialObjects (heap h 0) = [0])"
proof -
  let ?j = "animate 0 (updObj 0 (movement (movementSpeed demoEnv) (diagonalSpeed demoEnv)) joined)"
  have "bufferView ?j 0 = (0, [], [0], [0])" by (rule joined_processed)
  then have f: "id' (heap ?j 0) = 0" "visibleObjects (heap ?j 0) = []"
    "fullObjects (heap ?j 0) = [0]" "partialObjects (heap ?j 0) = [0]"
    by (simp_all add: bufferView_def)
  have "connectedPlayers ?j = [0]" by (rule joined_processed)
  then have "broadcast ?j = broadcastPlayer 0 ?j" by (simp add: broadcast_def)
  then have "bufferView (broadcast ?j) 0 = (0, [], [0], [0])"
    by (simp add: broadcastPlayer_bufferView f)
  moreover have "tick demoEnv demoClock joined = Some (Inr (reset (broadcast ?j)))"
    by (rule tick_visits(1) [OF joined_visits])
  ultimately show ?thesis
    by (simp add: joined_facts bufferView_def)
qed

subsection \<open>The two dirty lists\<close>

lemma strike_calls: "\<exists>cs. calls (stateOf (strike e a g)) = calls g @ cs"
  by (simp add: strike_def Let_def calls_callDamage calls_callInteract split: option.splits)

lemma strike_quiet: "strike e a g = Inr g2 \<Longrightarrow> calls g2 = calls g \<Longrightarrow> g2 = g"
  by (auto simp: strike_def Let_def calls_callDamage calls_callInteract
      split: option.splits if_splits)

lemma shoot_calls: "\<exists>cs. calls (stateOf (shoot e now a g)) = calls g @ cs"
proof (cases "shootStart (heap g a) \<and> 250 \<le> fst now - meleeCooldown (heap g a)")
  case True
  with strike_calls [of e a "updObj a startPunch (updObj a (\<lambda>p. p\<lparr>meleeCooldown := snd now\<rparr>)
             (updObj a (\<lambda>p. p\<lparr>shootStart := False\<rparr>) g))"]
  show ?thesis by (simp add: shoot_resolve)
next
  case False
  then show ?thesis
    by (cases "shootStart (heap g a)") (simp_all add: shoot_discard shoot_idle)
qed

text \<open>A melee block that returns and has made no call has left the lists, the active
  collection and every identity alone.\<close>

lemma shoot_quiet:
  assumes "shoot e now a g = Inr g2" and "calls g2 = calls g"
  shows "fullDirtyObjects g2 = fullDirtyObjects g" "partialDirtyObjects g2 = partialDirtyObjects g"
    "activePlayers g2 = activePlayers g" "id' (heap g2 b) = id' (heap g b)"
proof -
  have "fullDirtyObjects g2 = fullDirtyObjects g \<and> partialDirtyObjects g2 = partialDirtyObjects g
        \<and> activePlayers g2 = activePlayers g \<and> id' (heap g2 b) = id' (heap g b)"
  proof (cases "shootStart (heap g a) \<and> 250 \<le> fst now - meleeCooldown (heap g a)")
    case True
    let ?g3 = "updObj a startPunch (updObj a (\<lambda>p. p\<lparr>meleeCooldown := snd now\<rparr>)
             (updObj a (\<lambda>p. p\<lparr>shootStart := False\<rparr>) g))"
    from True assms(1) have "strike e a ?g3 = Inr g2" by (simp add: shoot_resolve)
    moreover have "calls g2 = calls ?g3" using assms(2) by simp
    ultimately have "g2 = ?g3" by (rule strike_quiet)
    then show ?thesis by (simp add: heap_updObj startPunch_def)
  next
    case False
    with assms(1) show ?thesis
      by (cases "shootStart (heap g a)") (auto simp: shoot_discard shoot_idle heap_updObj)
  qed
  then show "fullDirtyObjects g2 = fullDirtyObjects g" "partialDirtyObjects g2 = partialDirtyObjects g"
    "activePlayers g2 = activePlayers g" "id' (heap g2 b) = id' (heap g b)"
    by simp_all
qed

lemma animate_dirty:
  "fullDirtyObjects (animate a g) =
     fullDirtyObjects g @ (if animActive (heap g a) then [id' (heap g a)] else [])"
  "partialDirtyObjects (animate a g) =
     partialDirtyObjects g @ (if animActive (heap g a) then [] else [id' (heap g a)])"
  "id' (heap (animate a g) b) = id' (heap g b)"
  by (simp_all add: animate_def Let_def heap_updObj animAdvance_def)

lemma movement_id [simp]: "id' (movement s ds p) = id' p"
  by (simp add: movement_def setVelocity_def Let_def)

lemma processPlayer_calls: "\<exists>cs. calls (stateOf (processPlayer e now a g)) = calls g @ cs"
proof -
  let ?s = "shoot e now a (updObj a (movement (movementSpeed e) (diagonalSpeed e)) g)"
  from shoot_calls [of e now a "updObj a (movement (movementSpeed e) (diagonalSpeed e)) g"]
  obtain cs where "calls (stateOf ?s) = calls g @ cs" by auto
  then show ?thesis
    by (cases ?s) (simp_all add: processPlayer_def)
qed

lemma visits_calls: "visits e clock i g as r \<Longrightarrow> \<exists>cs. calls (stateOf r) = calls g @ cs"
proof (induction rule: visits.induct)
  case (past i g)
  show ?case by simp
next
  case (thrown i g x)
  from processPlayer_calls [of e "clock i" "activePlayers g ! i" g] thrown(2)
  show ?case by simp
next
  case (turn i g h as r)
  from processPlayer_calls [of e "clock i" "activePlayers g ! i" g] turn(2)
  obtain c1 where "calls h = calls g @ c1" by auto
  moreover from turn.IH obtain c2 where "calls (stateOf r) = calls h @ c2" by blast
  ultimately show ?case by simp
qed

lemma processPlayer_quiet:
  assumes "processPlayer e now a g = Inr h" and "calls h = calls g"
  shows "\<exists>g2. shoot e now a (updObj a (movement (movementSpeed e) (diagonalSpeed e)) g) = Inr g2
           \<and> h = animate a g2
           \<and> fullDirtyObjects g2 = fullDirtyObjects g
           \<and> partialDirtyObjects g2 = partialDirtyObjects g
           \<and> activePlayers g2 = activePlayers g
           \<and> (\<forall>b. id' (heap g2 b) = id' (heap g b))"
proof -
  let ?g0 = "updObj a (movement (movementSpeed e) (diagonalSpeed e)) g"
  from processPlayer_Inr [OF assms(1)] obtain g2
    where s: "shoot e now a ?g0 = Inr g2" and h: "h = animate a g2" by blast
  from assms(2) h have c: "calls g2 = calls ?g0" by simp
  have "id' (heap g2 b) = id' (heap g b)" for b
    using shoot_quiet(4) [OF s c, of b] by (simp add: heap_updObj)
  with shoot_quiet(1,2,3) [OF s c] s h show ?thesis by simp
qed

text \<open>A first loop that returns and has made no call.\<close>

lemma visits_quiet:
  "visits e clock i g as r \<Longrightarrow> \<not> isl r \<Longrightarrow> calls (stateOf r) = calls g \<Longrightarrow>
     as = drop i (activePlayers g)
     \<and> (\<forall>b. id' (heap (stateOf r) b) = id' (heap g b))
     \<and> fullDirtyObjects (stateOf r) =
         fullDirtyObjects g @ map (\<lambda>t. id' (heap g (fst t))) (filter snd (turns e clock i as g))
     \<and> partialDirtyObjects (stateOf r) =
         partialDirtyObjects g
         @ map (\<lambda>t. id' (heap g (fst t))) (filter (\<lambda>t. \<not> snd t) (turns e clock i as g))"
proof (induction rule: visits.induct)
  case (past i g)
  then show ?case by simp
next
  case (thrown i g x)
  then show ?case by simp
next
  case (turn i g h as r)
  let ?a = "activePlayers g ! i"
  from processPlayer_calls [of e "clock i" ?a g] turn(2)
  obtain c1 where c1: "calls h = calls g @ c1" by auto
  from visits_calls [OF turn(3)] obtain c2 where c2: "calls (stateOf r) = calls h @ c2" by blast
  from c1 c2 turn.prems(2) have ch: "calls h = calls g" and cr: "calls (stateOf r) = calls h"
    by simp_all
  from processPlayer_quiet [OF turn(2) ch] obtain g2 where
    s: "shoot e (clock i) ?a (updObj ?a (movement (movementSpeed e) (diagonalSpeed e)) g) = Inr g2"
    and h: "h = animate ?a g2"
    and f: "fullDirtyObjects g2 = fullDirtyObjects g" "partialDirtyObjects g2 = partialDirtyObjects g"
    and ap: "activePlayers g2 = activePlayers g"
    and ids: "\<And>b. id' (heap g2 b) = id' (heap g b)"
    by blast
  have ts: "turns e clock i (?a # as) g = (?a, animActive (heap g2 ?a)) # turns e clock (Suc i) as h"
    using s h by simp
  have idh: "id' (heap h b) = id' (heap g b)" for b
    using h ids by (simp add: animate_dirty)
  from turn.IH [OF turn.prems(1) cr]
  have as: "as = drop (Suc i) (activePlayers h)"
    and idr: "\<forall>b. id' (heap (stateOf r) b) = id' (heap h b)"
    and fr: "fullDirtyObjects (stateOf r) =
         fullDirtyObjects h @ map (\<lambda>t. id' (heap h (fst t))) (filter snd (turns e clock (Suc i) as h))"
    and pr: "partialDirtyObjects (stateOf r) =
         partialDirtyObjects h
         @ map (\<lambda>t. id' (heap h (fst t))) (filter (\<lambda>t. \<not> snd t) (turns e clock (Suc i) as h))"
    by simp_all
  have "?a # as = drop i (activePlayers g)"
    using as h ap turn(1) by (simp add: Cons_nth_drop_Suc)
  moreover have "\<forall>b. id' (heap (stateOf r) b) = id' (heap g b)"
    using idr idh by simp
  moreover have "fullDirtyObjects (stateOf r) =
         fullDirtyObjects g @ map (\<lambda>t. id' (heap g (fst t))) (filter snd (turns e clock i (?a # as) g))"
    unfolding ts using fr h f ids by (simp add: animate_dirty idh)
  moreover have "partialDirtyObjects (stateOf r) =
         partialDirtyObjects g
         @ map (\<lambda>t. id' (heap g (fst t))) (filter (\<lambda>t. \<not> snd t) (turns e clock i (?a # as) g))"
    unfolding ts using pr h f ids by (simp add: animate_dirty idh)
  ultimately show ?case by blast
qed

lemma halves_disjoint:
  assumes "distinct (map f ts)"
  shows "set (map f (filter P ts)) \<inter> set (map f (filter (\<lambda>t. \<not> P t) ts)) = {}"
  using assms by (induction ts) auto

lemma quiet_lists_disjoint:
  assumes ts: "map fst ts = as"
    and d: "distinct (map idf as)"
    and s: "set F0 \<inter> set P0 = {}"
    and n: "\<forall>a\<in>set as. idf a \<notin> set F0 \<union> set P0"
  shows "set (F0 @ map (\<lambda>t. idf (fst t)) (filter snd ts))
           \<inter> set (P0 @ map (\<lambda>t. idf (fst t)) (filter (\<lambda>t. \<not> snd t) ts)) = {}"
proof -
  have "map (\<lambda>t. idf (fst t)) ts = map idf as"
    using ts by (auto simp: map_eq_conv comp_def)
  with d have "distinct (map (\<lambda>t. idf (fst t)) ts)" by simp
  from halves_disjoint [OF this, of snd]
  have m: "set (map (\<lambda>t. idf (fst t)) (filter snd ts))
             \<inter> set (map (\<lambda>t. idf (fst t)) (filter (\<lambda>t. \<not> snd t) ts)) = {}" .
  have sub: "set (map (\<lambda>t. idf (fst t)) (filter Q ts)) \<subseteq> idf ` set as" for Q
    using ts by force
  from n have "idf ` set as \<inter> (set F0 \<union> set P0) = {}" by auto
  with sub [of snd] sub [of "\<lambda>t. \<not> snd t"]
  have "set F0 \<inter> set (map (\<lambda>t. idf (fst t)) (filter (\<lambda>t. \<not> snd t) ts)) = {}"
    "set (map (\<lambda>t. idf (fst t)) (filter snd ts)) \<inter> set P0 = {}"
    by blast+
  with m s show ?thesis
    by (simp only: set_append) blast
qed

text \<open>
  Claim C2, as amended.  Nothing is assumed of \<^verbatim>\<open>damage\<close> and \<^verbatim>\<open>interact\<close>.

  \<^item> One processing of a player \<open>a\<close> that reaches the animation block (line 162) with the
    session \<open>g2\<close> pushes the identity of \<open>a\<close> on exactly one of the two lists:
    \<^verbatim>\<open>fullDirtyObjects\<close> when line 162 finds the animation active, \<^verbatim>\<open>partialDirtyObjects\<close>
    when it finds it idle.  The lists are disjoint after the push exactly when they were
    disjoint at line 162 and the other list did not hold the identity.  When the melee
    block before it has made no call, \<open>g2\<close> has the lists and the identity of the session
    the processing started with: nothing else in the first loop of \<^verbatim>\<open>game.ts\<close> writes to
    the lists.
  \<^item> A first loop that returns without having made a \<^verbatim>\<open>damage\<close> or \<^verbatim>\<open>interact\<close> call (the
    log of calls is as it was) has processed every active player once, in order; the two
    lists are then the lists at the start of the tick followed by the identities of the
    players found active and of the players found idle; the second loop does not change
    them.  They are disjoint provided the active players have distinct identities and, at
    the start of the tick, the lists were disjoint and held no active player's identity.
    A player found idle whose identity was in \<^verbatim>\<open>fullDirtyObjects\<close> at the start of the tick
    (\<^verbatim>\<open>addPlayer\<close> puts it there) is in both lists when the second loop runs.

  What the lists hold after an attack has landed depends on \<^verbatim>\<open>damage\<close> and \<^verbatim>\<open>interact\<close>,
  which write to the session from outside this file; the first item still holds there.
\<close>

theorem dirty_lists_disjoint:
  "(\<forall>now a g2.
      shoot e now a (updObj a (movement (movementSpeed e) (diagonalSpeed e)) g) = Inr g2 \<longrightarrow>
        processPlayer e now a g = Inr (animate a g2)
        \<and> fullDirtyObjects (animate a g2) =
            fullDirtyObjects g2 @ (if animActive (heap g2 a) then [id' (heap g2 a)] else [])
        \<and> partialDirtyObjects (animate a g2) =
            partialDirtyObjects g2 @ (if animActive (heap g2 a) then [] else [id' (heap g2 a)])
        \<and> ((set (fullDirtyObjects (animate a g2)) \<inter> set (partialDirtyObjects (animate a g2)) = {})
             = (set (fullDirtyObjects g2) \<inter> set (partialDirtyObjects g2) = {}
                \<and> id' (heap g2 a) \<notin> (if animActive (heap g2 a) then set (partialDirtyObjects g2)
                                         else set (fullDirtyObjects g2))))
        \<and> (calls g2 = calls g \<longrightarrow>
             fullDirtyObjects g2 = fullDirtyObjects g
             \<and> partialDirtyObjects g2 = partialDirtyObjects g
             \<and> id' (heap g2 a) = id' (heap g a)))
   \<and> (\<forall>as g1. visits e clock 0 g as (Inr g1) \<and> calls g1 = calls g \<longrightarrow>
        as = activePlayers g
        \<and> map fst (turns e clock 0 as g) = as
        \<and> fullDirtyObjects g1 =
            fullDirtyObjects g
            @ map (\<lambda>t. id' (heap g (fst t))) (filter snd (turns e clock 0 as g))
        \<and> partialDirtyObjects g1 =
            partialDirtyObjects g
            @ map (\<lambda>t. id' (heap g (fst t))) (filter (\<lambda>t. \<not> snd t) (turns e clock 0 as g))
        \<and> fullDirtyObjects (broadcast g1) = fullDirtyObjects g1
        \<and> partialDirtyObjects (broadcast g1) = partialDirtyObjects g1
        \<and> (distinct (map (\<lambda>a. id' (heap g a)) (activePlayers g))
             \<and> set (fullDirtyObjects g) \<inter> set (partialDirtyObjects g) = {}
             \<and> (\<forall>a\<in>set (activePlayers g).
                   id' (heap g a) \<notin> set (fullDirtyObjects g) \<union> set (partialDirtyObjects g))
            \<longrightarrow> set (fullDirtyObjects g1) \<inter> set (partialDirtyObjects g1) = {})
        \<and> (\<forall>a. (a, False) \<in> set (turns e clock 0 as g)
                 \<and> id' (heap g a) \<in> set (fullDirtyObjects g)
            \<longrightarrow> id' (heap g a) \<in> set (fullDirtyObjects g1) \<inter> set (partialDirtyObjects g1)))"
proof (intro conjI allI impI)
  fix now a g2
  assume s: "shoot e now a (updObj a (movement (movementSpeed e) (diagonalSpeed e)) g) = Inr g2"
  show "processPlayer e now a g = Inr (animate a g2)"
    using s by (simp add: processPlayer_def)
  show "fullDirtyObjects (animate a g2) =
            fullDirtyObjects g2 @ (if animActive (heap g2 a) then [id' (heap g2 a)] else [])"
    by (rule animate_dirty)
  show "partialDirtyObjects (animate a g2) =
            partialDirtyObjects g2 @ (if animActive (heap g2 a) then [] else [id' (heap g2 a)])"
    by (rule animate_dirty)
  show "(set (fullDirtyObjects (animate a g2)) \<inter> set (partialDirtyObjects (animate a g2)) = {})
             = (set (fullDirtyObjects g2) \<inter> set (partialDirtyObjects g2) = {}
                \<and> id' (heap g2 a) \<notin> (if animActive (heap g2 a) then set (partialDirtyObjects g2)
                                         else set (fullDirtyObjects g2)))"
    by (auto simp: animate_dirty)
  assume "calls g2 = calls g"
  then have c: "calls g2 = calls (updObj a (movement (movementSpeed e) (diagonalSpeed e)) g)"
    by simp
  from shoot_quiet(1) [OF s c] show "fullDirtyObjects g2 = fullDirtyObjects g" by simp
  from shoot_quiet(2) [OF s c] show "partialDirtyObjects g2 = partialDirtyObjects g" by simp
  from shoot_quiet(4) [OF s c, of a] show "id' (heap g2 a) = id' (heap g a)"
    by (simp add: heap_updObj)
next
  fix as g1
  assume "visits e clock 0 g as (Inr g1) \<and> calls g1 = calls g"
  then have v: "visits e clock 0 g as (Inr g1)" and c: "calls g1 = calls g" by simp_all
  from visits_quiet [OF v] c
  have q: "as = activePlayers g"
    "fullDirtyObjects g1 =
       fullDirtyObjects g @ map (\<lambda>t. id' (heap g (fst t))) (filter snd (turns e clock 0 as g))"
    "partialDirtyObjects g1 =
       partialDirtyObjects g
       @ map (\<lambda>t. id' (heap g (fst t))) (filter (\<lambda>t. \<not> snd t) (turns e clock 0 as g))"
    by simp_all
  show "as = activePlayers g" by (rule q)
  show ts: "map fst (turns e clock 0 as g) = as" using visits_turns [OF v] by simp
  show "fullDirtyObjects g1 =
       fullDirtyObjects g @ map (\<lambda>t. id' (heap g (fst t))) (filter snd (turns e clock 0 as g))"
    by (rule q)
  show "partialDirtyObjects g1 =
       partialDirtyObjects g
       @ map (\<lambda>t. id' (heap g (fst t))) (filter (\<lambda>t. \<not> snd t) (turns e clock 0 as g))"
    by (rule q)
  show "fullDirtyObjects (broadcast g1) = fullDirtyObjects g1"
    using broadcast_fold_exact [of g1 "connectedPlayers g1"] by (simp add: broadcast_def)
  show "partialDirtyObjects (broadcast g1) = partialDirtyObjects g1"
    using broadcast_fold_exact [of g1 "connectedPlayers g1"] by (simp add: broadcast_def)
  {
    assume h: "distinct (map (\<lambda>a. id' (heap g a)) (activePlayers g))
             \<and> set (fullDirtyObjects g) \<inter> set (partialDirtyObjects g) = {}
             \<and> (\<forall>a\<in>set (activePlayers g).
                   id' (heap g a) \<notin> set (fullDirtyObjects g) \<union> set (partialDirtyObjects g))"
    from quiet_lists_disjoint [where idf = "\<lambda>a. id' (heap g a)" and as = as
        and ts = "turns e clock 0 as g" and ?F0.0 = "fullDirtyObjects g"
        and ?P0.0 = "partialDirtyObjects g", OF ts] h q(1)
    show "set (fullDirtyObjects g1) \<inter> set (partialDirtyObjects g1) = {}"
      unfolding q(2) q(3) by blast
  }
  fix a
  assume "(a, False) \<in> set (turns e clock 0 as g) \<and> id' (heap g a) \<in> set (fullDirtyObjects g)"
  then have 1: "(a, False) \<in> set (turns e clock 0 as g)"
    and 2: "id' (heap g a) \<in> set (fullDirtyObjects g)" by simp_all
  from 1 have "id' (heap g a) \<in> set (map (\<lambda>t. id' (heap g (fst t)))
      (filter (\<lambda>t. \<not> snd t) (turns e clock 0 as g)))" by force
  with 2 show "id' (heap g a) \<in> set (fullDirtyObjects g1) \<inter> set (partialDirtyObjects g1)"
    unfolding q(2) q(3) by simp
qed

lemma thin_keeps_active: "envKeeps thinAir activePlayers"
  by (simp add: envKeeps_def keeps_def thinAir_def demoEnv_def)

lemma thin_probe_total: "\<forall>p. probe thinAir p \<noteq> None"
  by (simp add: thinAir_def demoEnv_def)

lemma demo_game_facts:
  "activePlayers demoGame = [0, 1, 2, 3]" "calls demoGame = []"
  "fullDirtyObjects demoGame = []" "partialDirtyObjects demoGame = []"
  "map (\<lambda>a. id' (heap demoGame a)) [0, 1, 2, 3] = [0, 1, 2, 3]"
  by (simp_all add: demoGame_def newGame_def newPlayer_def unborn_def)

lemma miss_walk: "walk thinAir demoClock 0 [0, 1, 2, 3] demoGame = Inr missPass"
proof -
  from walk_returns [OF thin_probe_total, of demoClock 0 "[0, 1, 2, 3]" demoGame]
  obtain g1 where "walk thinAir demoClock 0 [0, 1, 2, 3] demoGame = Inr g1" by blast
  then show ?thesis by (simp add: missPass_def)
qed

lemma miss_visits: "visits thinAir demoClock 0 demoGame [0, 1, 2, 3] (Inr missPass)"
proof -
  have "[0, 1, 2, 3] = drop 0 (activePlayers demoGame)" by (simp add: demo_game_facts)
  from walk_visits [OF thin_keeps_active this miss_walk] show ?thesis .
qed

lemma missPass_eval:
  "calls missPass = []" "fullDirtyObjects missPass = [0]" "partialDirtyObjects missPass = [1, 2, 3]"
  by (simp_all add: missPass_def thinAir_def demoGame_def demoEnv_def demoClock_def newGame_def
      newPlayer_def unborn_def processPlayer_def shoot_def strike_def closest_def hitDepth_def
      callDamage_def callInteract_def animate_def animAdvance_def startPunch_def movement_def
      setVelocity_def updObj_def Let_def)

lemma miss_turns:
  "turns thinAir demoClock 0 [0, 1, 2, 3] demoGame = [(0, True), (1, False), (2, False), (3, False)]"
  by (simp add: thinAir_def demoGame_def demoEnv_def demoClock_def newGame_def
      newPlayer_def unborn_def shoot_def strike_def closest_def hitDepth_def
      callDamage_def callInteract_def animate_def animAdvance_def startPunch_def movement_def
      setVelocity_def updObj_def Let_def)

theorem dirty_lists_disjoint_witness:
  "resolverLoop thinAir demoClock 0 demoGame = Some (Inr missPass)
   \<and> calls missPass = calls demoGame
   \<and> turns thinAir demoClock 0 [0, 1, 2, 3] demoGame = [(0, True), (1, False), (2, False), (3, False)]
   \<and> fullDirtyObjects missPass = [0]
   \<and> partialDirtyObjects missPass = [1, 2, 3]
   \<and> set (fullDirtyObjects missPass) \<inter> set (partialDirtyObjects missPass) = {}"
proof -
  have c: "calls missPass = calls demoGame" by (simp add: missPass_eval demo_game_facts)
  have h: "distinct (map (\<lambda>a. id' (heap demoGame a)) (activePlayers demoGame))
           \<and> set (fullDirtyObjects demoGame) \<inter> set (partialDirtyObjects demoGame) = {}
           \<and> (\<forall>a\<in>set (activePlayers demoGame).
                 id' (heap demoGame a) \<notin> set (fullDirtyObjects demoGame) \<union> set (partialDirtyObjects demoGame))"
    unfolding demo_game_facts by simp
  from dirty_lists_disjoint [where e = thinAir and clock = demoClock and g = demoGame]
    miss_visits c h
  have d: "set (fullDirtyObjects missPass) \<inter> set (partialDirtyObjects missPass) = {}"
    by blast
  from dirty_lists_disjoint [where e = thinAir and clock = demoClock and g = demoGame]
    miss_visits c
  have "fullDirtyObjects missPass =
          fullDirtyObjects demoGame
          @ map (\<lambda>t. id' (heap demoGame (fst t)))
              (filter snd (turns thinAir demoClock 0 [0, 1, 2, 3] demoGame))
        \<and> partialDirtyObjects missPass =
          partialDirtyObjects demoGame
          @ map (\<lambda>t. id' (heap demoGame (fst t)))
              (filter (\<lambda>t. \<not> snd t) (turns thinAir demoClock 0 [0, 1, 2, 3] demoGame))"
    by blast
  then have l: "fullDirtyObjects missPass = [0]" "partialDirtyObjects missPass = [1, 2, 3]"
    unfolding miss_turns by (simp_all add: demo_game_facts) (simp_all add: demoGame_def newPlayer_def)
  have "resolverLoop thinAir demoClock 0 demoGame = Some (Inr missPass)"
    by (rule visits_loop [OF miss_visits])
  with c d l show ?thesis unfolding miss_turns by simp
qed

text \<open>
  Against claim C2 as stated: \<^verbatim>\<open>addPlayer\<close> on a fresh session leaves the identity 0 in
  \<^verbatim>\<open>fullDirtyObjects\<close>; the first loop of the next tick finds the player idle and pushes
  the same identity on \<^verbatim>\<open>partialDirtyObjects\<close>.  When the second loop starts, both lists
  hold 0.
\<close>

theorem dirty_lists_counterexample:
  "fullDirtyObjects joined = [0] \<and> partialDirtyObjects joined = []
   \<and> (\<exists>g1. resolverLoop demoEnv demoClock 0 joined = Some (Inr g1)
          \<and> fullDirtyObjects g1 = [0] \<and> partialDirtyObjects g1 = [0])"
proof -
  let ?j = "animate 0 (updObj 0 (movement (movementSpeed demoEnv) (diagonalSpeed demoEnv)) joined)"
  have "resolverLoop demoEnv demoClock 0 joined = Some (Inr ?j)"
    by (rule visits_loop [OF joined_visits])
  moreover have "fullDirtyObjects ?j = [0]" "partialDirtyObjects ?j = [0]"
    by (rule joined_processed)+
  ultimately show ?thesis by (simp add: joined_facts)
qed

subsection \<open>The animation counter\<close>

lemma startPunch_running: "animActive p \<Longrightarrow> startPunch p = p"
  by (simp add: startPunch_def)

lemma animState_startPunch_idle:
  "\<not> animActive p \<Longrightarrow> animState (startPunch p) = (True, 1, animSeq p, 0)"
  by (simp add: startPunch_def animState_def)

lemma anim_offLog: "offLog (\<lambda>h. animState (heap h a))"
  by (simp add: offLog_def)

text \<open>The turn of another player.\<close>

lemma anim_shoot_other:
  assumes "envKeeps e (\<lambda>h. animState (heap h a))" and "b \<noteq> a"
  shows "animState (heap (stateOf (shoot e now b g)) a) = animState (heap g a)"
proof (cases "shootStart (heap g b) \<and> 250 \<le> fst now - meleeCooldown (heap g b)")
  case True
  from strike_keeps [OF assms(1) anim_offLog] True assms(2) show ?thesis
    by (simp add: shoot_resolve heap_updObj)
next
  case False
  with assms(2) show ?thesis
    by (cases "shootStart (heap g b)")
       (simp_all add: shoot_discard shoot_idle heap_updObj)
qed

lemma anim_other_turn:
  assumes "envKeeps e (\<lambda>h. animState (heap h a))" and "b \<noteq> a"
  shows "animState (heap (stateOf (processPlayer e now b g)) a) = animState (heap g a)"
proof -
  let ?g0 = "updObj b (movement (movementSpeed e) (diagonalSpeed e)) g"
  from anim_shoot_other [OF assms, of now ?g0] assms(2)
  have "animState (heap (stateOf (shoot e now b ?g0)) a) = animState (heap g a)"
    by (simp add: heap_updObj)
  then show ?thesis using assms(2)
    by (cases "shoot e now b ?g0")
       (simp_all add: processPlayer_def animate_def Let_def heap_updObj)
qed

text \<open>The player's own turn: the melee block, then the animation block.\<close>

lemma animState_shoot:
  assumes "envKeeps e (\<lambda>h. animState (heap h a))"
  shows "animState (heap (stateOf (shoot e now a g)) a) =
           animState (if shootStart (heap g a) \<and> 250 \<le> fst now - meleeCooldown (heap g a)
                      then startPunch (heap g a) else heap g a)"
proof (cases "shootStart (heap g a) \<and> 250 \<le> fst now - meleeCooldown (heap g a)")
  case True
  from strike_keeps [OF assms anim_offLog] True
  show ?thesis
    by (simp add: shoot_resolve heap_updObj) (simp add: animState_def startPunch_def)
next
  case False
  then show ?thesis
    by (cases "shootStart (heap g a)")
       (simp_all add: shoot_discard shoot_idle heap_updObj animState_def)
qed

lemma animState_animate:
  "animState (heap (animate a g) a) =
     (if fst (animState (heap g a))
      then (if snd (snd (snd (animState (heap g a)))) + 1 > 8 then (False, 0, 0, 0)
            else (True, fst (snd (animState (heap g a))), 1, snd (snd (snd (animState (heap g a)))) + 1))
      else animState (heap g a))"
  by (simp add: animate_def heap_updObj animState_def animAdvance_def Let_def)

text \<open>
  What the melee block of the player's own turn leaves for line 162, from a session
  \<open>g\<close> in which the player's animation is in the state \<open>st\<close>: the running animation as it
  was; an idle one either still idle, or active with elapsed 0.
\<close>

lemma own_shoot:
  assumes "envKeeps e (\<lambda>h. animState (heap h a))"
    and "shoot e now a (updObj a (movement s ds) g) = Inr g2"
  shows "animActive (heap g a) \<Longrightarrow> animState (heap g2 a) = animState (heap g a)"
    and "\<not> animActive (heap g a) \<Longrightarrow> animActive (heap g2 a) \<Longrightarrow>
           animState (heap g2 a) = (True, 1, animSeq (heap g a), 0)"
    and "\<not> animActive (heap g a) \<Longrightarrow> \<not> animActive (heap g2 a) \<Longrightarrow>
           animState (heap g2 a) = animState (heap g a)"
proof -
  let ?g0 = "updObj a (movement s ds) g"
  have m: "animState (heap ?g0 a) = animState (heap g a)" "animSeq (heap ?g0 a) = animSeq (heap g a)"
    "animActive (heap ?g0 a) = animActive (heap g a)"
    by (simp_all add: heap_updObj) (simp_all add: movement_def setVelocity_def Let_def)
  from animState_shoot [OF assms(1), of now ?g0] assms(2)
  have k: "animState (heap g2 a) =
             animState (if shootStart (heap ?g0 a) \<and> 250 \<le> fst now - meleeCooldown (heap ?g0 a)
                        then startPunch (heap ?g0 a) else heap ?g0 a)"
    by simp
  {
    assume "animActive (heap g a)"
    with m have "startPunch (heap ?g0 a) = heap ?g0 a" by (simp add: startPunch_running)
    with k m show "animState (heap g2 a) = animState (heap g a)" by simp
  }
  {
    assume i: "\<not> animActive (heap g a)" and "animActive (heap g2 a)"
    then have "animState (heap g2 a) \<noteq> animState (heap g a)" by (auto simp: animState_def)
    with k m have "animState (heap g2 a) = animState (startPunch (heap ?g0 a))"
      by (auto split: if_splits)
    with i m show "animState (heap g2 a) = (True, 1, animSeq (heap g a), 0)"
      by (simp add: animState_startPunch_idle)
  }
  {
    assume i: "\<not> animActive (heap g a)" and j: "\<not> animActive (heap g2 a)"
    from i m have "animState (startPunch (heap ?g0 a)) = (True, 1, animSeq (heap g a), 0)"
      by (simp add: animState_startPunch_idle)
    with j have "animState (heap g2 a) \<noteq> animState (startPunch (heap ?g0 a))"
      by (auto simp: animState_def)
    with k m show "animState (heap g2 a) = animState (heap g a)"
      by (auto split: if_splits)
  }
qed

text \<open>A run that does not process the player, and a run that processes it once.\<close>

lemma turns_fst: "x \<in> set (turns e clock i as g) \<Longrightarrow> fst x \<in> set as"
  by (induction as arbitrary: i g) (auto split: sum.splits)

lemma count_list_absent: "count_list as a = 0 \<Longrightarrow> (a, b) \<notin> set (turns e clock i as g)"
  using turns_fst [of "(a, b)" e clock i as g] by (auto simp: count_list_0_iff)

lemma visits_unvisited:
  assumes "envKeeps e (\<lambda>h. animState (heap h a))"
  shows "visits e clock i g as r \<Longrightarrow> count_list as a = 0 \<Longrightarrow>
           animState (heap (stateOf r) a) = animState (heap g a)"
proof (induction rule: visits.induct)
  case (past i g)
  show ?case by simp
next
  case (thrown i g x)
  then have "activePlayers g ! i \<noteq> a" by (auto split: if_splits)
  from anim_other_turn [OF assms this, of "clock i" g] thrown(2) show ?case by simp
next
  case (turn i g h as r)
  then have ne: "activePlayers g ! i \<noteq> a" and c: "count_list as a = 0"
    by (auto split: if_splits)
  from anim_other_turn [OF assms ne, of "clock i" g] turn(2)
  have "animState (heap h a) = animState (heap g a)" by simp
  with turn.IH [OF c] show ?case by simp
qed

lemma visits_once:
  assumes "envKeeps e (\<lambda>h. animState (heap h a))"
  shows "visits e clock i g as r \<Longrightarrow> \<not> isl r \<Longrightarrow> count_list as a = 1 \<Longrightarrow>
           \<exists>g' g2 j. animState (heap g' a) = animState (heap g a)
              \<and> shoot e (clock j) a (updObj a (movement (movementSpeed e) (diagonalSpeed e)) g') = Inr g2
              \<and> animState (heap (stateOf r) a) = animState (heap (animate a g2) a)
              \<and> ((a, True) \<in> set (turns e clock i as g)) = animActive (heap g2 a)
              \<and> ((a, False) \<in> set (turns e clock i as g)) = (\<not> animActive (heap g2 a))"
proof (induction rule: visits.induct)
  case (past i g)
  then show ?case by simp
next
  case (thrown i g x)
  then show ?case by simp
next
  case (turn i g h as r)
  let ?x = "activePlayers g ! i"
  from processPlayer_Inr [OF turn(2)] obtain g2
    where s: "shoot e (clock i) ?x (updObj ?x (movement (movementSpeed e) (diagonalSpeed e)) g) = Inr g2"
      and h: "h = animate ?x g2" by blast
  have ts: "turns e clock i (?x # as) g = (?x, animActive (heap g2 ?x)) # turns e clock (Suc i) as h"
    using s h by simp
  show ?case
  proof (cases "?x = a")
    case True
    with turn.prems(2) have c: "count_list as a = 0" by simp
    from visits_unvisited [OF assms turn(3) c] h True
    have "animState (heap (stateOf r) a) = animState (heap (animate a g2) a)" by simp
    moreover from count_list_absent [OF c]
    have "((a, True) \<in> set (turns e clock i (?x # as) g)) = animActive (heap g2 a)"
      "((a, False) \<in> set (turns e clock i (?x # as) g)) = (\<not> animActive (heap g2 a))"
      unfolding ts using True by auto
    ultimately show ?thesis using s True by blast
  next
    case False
    with turn.prems(2) have c: "count_list as a = 1" by simp
    from anim_other_turn [OF assms False, of "clock i" g] turn(2)
    have k: "animState (heap h a) = animState (heap g a)" by simp
    from turn.IH [OF turn.prems(1) c] obtain g' g2' j where
      "animState (heap g' a) = animState (heap h a)"
      "shoot e (clock j) a (updObj a (movement (movementSpeed e) (diagonalSpeed e)) g') = Inr g2'"
      "animState (heap (stateOf r) a) = animState (heap (animate a g2') a)"
      "((a, True) \<in> set (turns e clock (Suc i) as h)) = animActive (heap g2' a)"
      "((a, False) \<in> set (turns e clock (Suc i) as h)) = (\<not> animActive (heap g2' a))"
      by blast
    with k False show ?thesis unfolding ts by auto
  qed
qed

lemma tick_once:
  assumes "envKeeps e (\<lambda>h. animState (heap h a))"
    and "visits e clock 0 g as (Inr g1)" and "count_list as a = 1"
  shows "animState (heap g a) = (True, ty, sq, n) \<Longrightarrow>
           animState (heap g1 a) = (if n + 1 > 8 then (False, 0, 0, 0) else (True, ty, 1, n + 1))"
    and "\<not> animActive (heap g a) \<Longrightarrow> (a, True) \<in> set (turns e clock 0 as g) \<Longrightarrow>
           animState (heap g1 a) = (True, 1, 1, 1)"
    and "\<not> animActive (heap g a) \<Longrightarrow> (a, False) \<in> set (turns e clock 0 as g) \<Longrightarrow>
           animState (heap g1 a) = animState (heap g a)"
proof -
  from visits_once [OF assms(1,2) _ assms(3)] obtain g' g2 j
    where v: "animState (heap g' a) = animState (heap g a)"
      and s: "shoot e (clock j) a (updObj a (movement (movementSpeed e) (diagonalSpeed e)) g') = Inr g2"
      and r: "animState (heap g1 a) = animState (heap (animate a g2) a)"
      and t: "((a, True) \<in> set (turns e clock 0 as g)) = animActive (heap g2 a)"
      and f: "((a, False) \<in> set (turns e clock 0 as g)) = (\<not> animActive (heap g2 a))"
    by auto
  from v have act: "animActive (heap g' a) = animActive (heap g a)"
    and sq: "animSeq (heap g' a) = animSeq (heap g a)"
    by (simp_all add: animState_def)
  note own = own_shoot [OF assms(1) s]
  {
    assume st: "animState (heap g a) = (True, ty, sq, n)"
    then have "animActive (heap g' a)" using act by (simp add: animState_def)
    from own(1) [OF this] v st have "animState (heap g2 a) = (True, ty, sq, n)" by simp
    with r show "animState (heap g1 a) = (if n + 1 > 8 then (False, 0, 0, 0) else (True, ty, 1, n + 1))"
      by (simp add: animState_animate)
  }
  {
    assume "\<not> animActive (heap g a)" "(a, True) \<in> set (turns e clock 0 as g)"
    with act t have "\<not> animActive (heap g' a)" "animActive (heap g2 a)" by simp_all
    from own(2) [OF this] have "animState (heap g2 a) = (True, 1, animSeq (heap g' a), 0)" .
    with r show "animState (heap g1 a) = (True, 1, 1, 1)"
      by (simp add: animState_animate)
  }
  {
    assume "\<not> animActive (heap g a)" "(a, False) \<in> set (turns e clock 0 as g)"
    with act f have i: "\<not> animActive (heap g' a)" "\<not> animActive (heap g2 a)" by simp_all
    from own(3) [OF this] v have "animState (heap g2 a) = animState (heap g a)" by simp
    moreover from i(2) have "\<not> fst (animState (heap g2 a))" by (simp add: animState_def)
    ultimately show "animState (heap g1 a) = animState (heap g a)"
      using r by (simp add: animState_animate)
  }
qed

lemma tick_end_anim:
  "animState (heap (reset (broadcast g)) a) = animState (heap g a)"
  by (simp add: broadcast_other)

text \<open>Nine ticks from an activation.\<close>

lemma nine_ticks:
  assumes frame: "envKeeps e (\<lambda>h. animState (heap h a))"
    and idle: "\<not> animActive (heap (S 0) a)"
    and once: "\<forall>k<9. \<exists>as g1. visits e (clocks k) 0 (S k) as (Inr g1) \<and> count_list as a = 1
                 \<and> (k = 0 \<longrightarrow> (a, True) \<in> set (turns e (clocks k) 0 as (S k)))
                 \<and> animState (heap (S (Suc k)) a) = animState (heap (reset (broadcast g1)) a)"
  shows "k \<le> 7 \<Longrightarrow> animState (heap (S (Suc k)) a) = (True, 1, 1, int k + 1)"
    and "animState (heap (S 9) a) = (False, 0, 0, 0)"
proof -
  have run: "k \<le> 7 \<Longrightarrow> animState (heap (S (Suc k)) a) = (True, 1, 1, int k + 1)" for k
  proof (induction k)
    case 0
    have "(0::nat) < 9" by simp
    with once obtain as g1 where v: "visits e (clocks 0) 0 (S 0) as (Inr g1)"
      and c: "count_list as a = 1"
      and t: "(a, True) \<in> set (turns e (clocks 0) 0 as (S 0))"
      and n: "animState (heap (S (Suc 0)) a) = animState (heap (reset (broadcast g1)) a)"
      by blast
    from tick_once(2) [OF frame v c idle t] n show ?case by (simp add: broadcast_other)
  next
    case (Suc k)
    then have st: "animState (heap (S (Suc k)) a) = (True, 1, 1, int k + 1)" by simp
    from Suc.prems have "Suc k < 9" by simp
    with once obtain as g1 where v: "visits e (clocks (Suc k)) 0 (S (Suc k)) as (Inr g1)"
      and c: "count_list as a = 1"
      and n: "animState (heap (S (Suc (Suc k))) a) = animState (heap (reset (broadcast g1)) a)"
      by blast
    from tick_once(1) [OF frame v c st] n Suc.prems show ?case by (simp add: broadcast_other)
  qed
  then show "k \<le> 7 \<Longrightarrow> animState (heap (S (Suc k)) a) = (True, 1, 1, int k + 1)" .
  from run [of 7] have st: "animState (heap (S 8) a) = (True, 1, 1, 8)"
    by (simp add: eval_nat_numeral)
  have "(8::nat) < 9" by simp
  with once obtain as g1 where v: "visits e (clocks 8) 0 (S 8) as (Inr g1)"
    and c: "count_list as a = 1"
    and n: "animState (heap (S (Suc 8)) a) = animState (heap (reset (broadcast g1)) a)"
    by blast
  from tick_once(1) [OF frame v c st] n show "animState (heap (S 9) a) = (False, 0, 0, 0)"
    by (simp add: broadcast_other)
qed

lemma thrown_turn_anim:
  assumes "processPlayer e now a g = Inl x"
  shows "shootStart (heap g a)" "250 \<le> fst now - meleeCooldown (heap g a)"
    "animState (heap (snd x) a) =
       (if animActive (heap g a) then animState (heap g a) else (True, 1, animSeq (heap g a), 0))"
proof -
  let ?g0 = "updObj a (movement (movementSpeed e) (diagonalSpeed e)) g"
  let ?g3 = "updObj a startPunch (updObj a (\<lambda>p. p\<lparr>meleeCooldown := snd now\<rparr>)
             (updObj a (\<lambda>p. p\<lparr>shootStart := False\<rparr>) ?g0))"
  from processPlayer_Inl [OF assms] have s: "shoot e now a ?g0 = Inl x" .
  have r: "shootStart (heap ?g0 a) \<and> 250 \<le> fst now - meleeCooldown (heap ?g0 a)"
  proof (rule ccontr)
    assume "\<not> ?thesis"
    then have "\<exists>h. shoot e now a ?g0 = Inr h"
      by (cases "shootStart (heap ?g0 a)") (simp_all add: shoot_discard shoot_idle)
    with s show False by simp
  qed
  then show "shootStart (heap g a)" "250 \<le> fst now - meleeCooldown (heap g a)"
    by (simp_all add: heap_updObj)
  from r s have "strike e a ?g3 = Inl x" by (simp add: shoot_resolve)
  then have "x = (TypeError, ?g3)"
    by (auto simp: strike_def Let_def split: option.splits if_splits)
  then show "animState (heap (snd x) a) =
       (if animActive (heap g a) then animState (heap g a) else (True, 1, animSeq (heap g a), 0))"
    by (simp add: heap_updObj) (simp add: animState_def startPunch_def movement_def setVelocity_def Let_def)
qed

text \<open>
  Claim C8, as amended.  The assumption is on the two methods that are not part of
  \<^verbatim>\<open>game.ts\<close>: \<^verbatim>\<open>damage\<close> and \<^verbatim>\<open>interact\<close> leave the animation fields of the player \<open>a\<close>
  as they are.

  \<^item> A tick whose first loop returns and has processed \<open>a\<close> exactly once returns; the
    second loop and the reset leave the animation alone.  A running animation with
    elapsed \<open>n\<close> has elapsed \<open>n + 1\<close> and sequence 1 after the tick when \<open>n + 1\<close> is at most 8,
    and is idle with type, sequence and elapsed 0 otherwise.  An animation that was idle
    at the start of the tick and that line 162 finds active (it was activated in this
    tick, by lines 117 to 121) is active with type 1, sequence 1 and elapsed 1 after the
    tick: line 120 sets elapsed to 0 and line 165 of the same turn makes it 1.  An
    animation that was idle and that line 162 finds idle stays as it was.
  \<^item> A first loop that does not process \<open>a\<close> (the player has left \<^verbatim>\<open>activePlayers\<close>, or its
    slot was skipped) leaves its animation as it was.
  \<^item> A turn of \<open>a\<close> that throws is one that resolved an attack; it leaves the animation
    active with elapsed 0 when it was idle before, and unchanged when it was running.
  \<^item> Hence the lifecycle.  Let \<open>S k\<close> be the session at the start of tick \<open>T + k\<close>.  If the
    animation is idle at the start of tick \<open>T\<close> and is activated in tick \<open>T\<close>, and the first
    loop of each of the ticks \<open>T\<close> to \<open>T + 8\<close> returns and has processed the player exactly
    once, and nothing between two ticks changes its animation fields, then after tick
    \<open>T + k\<close> the animation is active with elapsed \<open>k + 1\<close>, for every \<open>k\<close> from 0 to 7, and
    after tick \<open>T + 8\<close> it is idle with type, sequence and elapsed 0: one transition from
    active to idle, during tick \<open>T + 8\<close>.
\<close>

theorem anim_lifecycle:
  assumes "envKeeps e (\<lambda>h. animState (heap h a))"
  shows
    "(\<forall>as g1. visits e clock 0 g as (Inr g1) \<and> count_list as a = 1 \<longrightarrow>
        tick e clock g = Some (Inr (reset (broadcast g1)))
        \<and> animState (heap (reset (broadcast g1)) a) = animState (heap g1 a)
        \<and> (\<forall>ty sq n. animState (heap g a) = (True, ty, sq, n) \<longrightarrow>
              animState (heap g1 a) = (if n + 1 > 8 then (False, 0, 0, 0) else (True, ty, 1, n + 1)))
        \<and> (\<not> animActive (heap g a) \<and> (a, True) \<in> set (turns e clock 0 as g)
            \<longrightarrow> animState (heap g1 a) = (True, 1, 1, 1))
        \<and> (\<not> animActive (heap g a) \<and> (a, False) \<in> set (turns e clock 0 as g)
            \<longrightarrow> animState (heap g1 a) = animState (heap g a)))
     \<and> (\<forall>as r. visits e clock 0 g as r \<and> count_list as a = 0 \<longrightarrow>
          animState (heap (stateOf r) a) = animState (heap g a))
     \<and> (\<forall>now x. processPlayer e now a g = Inl x \<longrightarrow>
          shootStart (heap g a) \<and> 250 \<le> fst now - meleeCooldown (heap g a)
          \<and> animState (heap (snd x) a) =
              (if animActive (heap g a) then animState (heap g a)
               else (True, 1, animSeq (heap g a), 0)))
     \<and> (\<not> animActive (heap (S 0) a)
          \<and> (\<forall>k<9. \<exists>as g1. visits e (clocks k) 0 (S k) as (Inr g1) \<and> count_list as a = 1
                 \<and> (k = 0 \<longrightarrow> (a, True) \<in> set (turns e (clocks k) 0 as (S k)))
                 \<and> animState (heap (S (Suc k)) a) = animState (heap (reset (broadcast g1)) a))
         \<longrightarrow> (\<forall>k\<le>7. animState (heap (S (Suc k)) a) = (True, 1, 1, int k + 1))
              \<and> animState (heap (S 9) a) = (False, 0, 0, 0))"
proof (intro conjI allI impI)
  fix as g1
  assume "visits e clock 0 g as (Inr g1) \<and> count_list as a = 1"
  then have v: "visits e clock 0 g as (Inr g1)" and c: "count_list as a = 1" by simp_all
  show "tick e clock g = Some (Inr (reset (broadcast g1)))" by (rule tick_visits(1) [OF v])
  show "animState (heap (reset (broadcast g1)) a) = animState (heap g1 a)" by (rule tick_end_anim)
  {
    fix ty sq n
    assume "animState (heap g a) = (True, ty, sq, n)"
    then show "animState (heap g1 a) = (if n + 1 > 8 then (False, 0, 0, 0) else (True, ty, 1, n + 1))"
      by (rule tick_once(1) [OF assms v c])
  }
  {
    assume "\<not> animActive (heap g a) \<and> (a, True) \<in> set (turns e clock 0 as g)"
    then show "animState (heap g1 a) = (True, 1, 1, 1)"
      using tick_once(2) [OF assms v c] by blast
  }
  {
    assume "\<not> animActive (heap g a) \<and> (a, False) \<in> set (turns e clock 0 as g)"
    then show "animState (heap g1 a) = animState (heap g a)"
      using tick_once(3) [OF assms v c] by blast
  }
next
  fix as r
  assume "visits e clock 0 g as r \<and> count_list as a = 0"
  then show "animState (heap (stateOf r) a) = animState (heap g a)"
    using visits_unvisited [OF assms] by blast
next
  fix now x
  assume t: "processPlayer e now a g = Inl x"
  show "shootStart (heap g a)" by (rule thrown_turn_anim(1) [OF t])
  show "250 \<le> fst now - meleeCooldown (heap g a)" by (rule thrown_turn_anim(2) [OF t])
  show "animState (heap (snd x) a) =
              (if animActive (heap g a) then animState (heap g a)
               else (True, 1, animSeq (heap g a), 0))"
    by (rule thrown_turn_anim(3) [OF t])
next
  assume h: "\<not> animActive (heap (S 0) a)
          \<and> (\<forall>k<9. \<exists>as g1. visits e (clocks k) 0 (S k) as (Inr g1) \<and> count_list as a = 1
                 \<and> (k = 0 \<longrightarrow> (a, True) \<in> set (turns e (clocks k) 0 as (S k)))
                 \<and> animState (heap (S (Suc k)) a) = animState (heap (reset (broadcast g1)) a))"
  then have 1: "\<not> animActive (heap (S 0) a)"
    and 4: "\<forall>k<9. \<exists>as g1. visits e (clocks k) 0 (S k) as (Inr g1) \<and> count_list as a = 1
                 \<and> (k = 0 \<longrightarrow> (a, True) \<in> set (turns e (clocks k) 0 as (S k)))
                 \<and> animState (heap (S (Suc k)) a) = animState (heap (reset (broadcast g1)) a)"
    by blast+
  show "animState (heap (S 9) a) = (False, 0, 0, 0)"
    by (rule nine_ticks(2) [OF assms 1 4])
  fix k :: nat
  assume "k \<le> 7"
  then show "animState (heap (S (Suc k)) a) = (True, 1, 1, int k + 1)"
    by (rule nine_ticks(1) [OF assms 1 4])
qed

lemma demo_keeps_anim: "envKeeps demoEnv (\<lambda>h. animState (heap h 0))"
  by (simp add: envKeeps_def keeps_def demoEnv_def heap_updObj animState_def)

lemma armed_facts:
  "activePlayers armed = [0]" "shootStart (heap armed 0)" "\<not> animActive (heap armed 0)"
  "meleeCooldown (heap armed 0) = 0"
  by (simp_all add: armed_def heap_updObj joined_facts joined_idle)

lemma visits_active:
  assumes "envKeeps e activePlayers"
  shows "visits e clock i g as r \<Longrightarrow> activePlayers (stateOf r) = activePlayers g"
proof (induction rule: visits.induct)
  case (past i g)
  show ?case by simp
next
  case (thrown i g x)
  from processPlayer_active [OF assms, of "clock i" "activePlayers g ! i" g] thrown(2)
  show ?case by simp
next
  case (turn i g h as r)
  from processPlayer_active [OF assms, of "clock i" "activePlayers g ! i" g] turn(2)
  have "activePlayers h = activePlayers g" by simp
  with turn.IH show ?case by simp
qed

lemma demoRun_ticks:
  "ticks demoEnv demoClocks k armed = Some (Inr (demoRun k)) \<and> activePlayers (demoRun k) = [0]"
proof (induction k)
  case 0
  show ?case by (simp add: demoRun_def armed_facts)
next
  case (Suc k)
  from demo_visits [of "demoClocks k" "demoRun k"] Suc obtain g1
    where v: "visits demoEnv (demoClocks k) 0 (demoRun k) [0] (Inr g1)" by auto
  from tick_visits(1) [OF v] Suc
  have t: "ticks demoEnv demoClocks (Suc k) armed = Some (Inr (reset (broadcast g1)))" by simp
  then have d: "demoRun (Suc k) = reset (broadcast g1)"
    by (simp only: demoRun_def option.case stateOf.simps)
  from visits_active [OF demo_keeps_active v] Suc
  have "activePlayers (reset (broadcast g1)) = [0]"
    by (simp add: reset_def broadcast_other)
  with t d show ?case by simp
qed

lemma armed_turns: "turns demoEnv (demoClocks 0) 0 [0] armed = [(0, True)]"
proof -
  let ?g0 = "updObj 0 (movement (movementSpeed demoEnv) (diagonalSpeed demoEnv)) armed"
  from processPlayer_returns [OF demo_probe_total, of "demoClocks 0 0" 0 armed]
  obtain h where "processPlayer demoEnv (demoClocks 0 0) 0 armed = Inr h" by blast
  from processPlayer_Inr [OF this] obtain g2
    where s: "shoot demoEnv (demoClocks 0 0) 0 ?g0 = Inr g2" by blast
  have "animState (heap g2 0) \<noteq> animState (heap armed 0)"
  proof
    assume q: "animState (heap g2 0) = animState (heap armed 0)"
    from animState_shoot [OF demo_keeps_anim, of "demoClocks 0 0" ?g0] s
    have "animState (heap g2 0) = animState (startPunch (heap ?g0 0))"
      by (simp add: heap_updObj armed_facts demoClocks_def)
    also have "\<dots> = (True, 1, animSeq (heap ?g0 0), 0)"
      by (rule animState_startPunch_idle)
         (simp add: heap_updObj armed_facts movement_def setVelocity_def Let_def)
    finally show False using q armed_facts(3) by (simp add: animState_def)
  qed
  moreover from own_shoot(3) [OF demo_keeps_anim s armed_facts(3)]
  have "\<not> animActive (heap g2 0) \<Longrightarrow> animState (heap g2 0) = animState (heap armed 0)" .
  ultimately have "animActive (heap g2 0)" by blast
  with s show ?thesis by simp
qed

lemma demoRun_step:
  "\<exists>as g1. visits demoEnv (demoClocks k) 0 (demoRun k) as (Inr g1) \<and> count_list as 0 = 1
     \<and> (k = 0 \<longrightarrow> (0, True) \<in> set (turns demoEnv (demoClocks k) 0 as (demoRun k)))
     \<and> animState (heap (demoRun (Suc k)) 0) = animState (heap (reset (broadcast g1)) 0)"
proof -
  from demo_visits [of "demoClocks k" "demoRun k"] demoRun_ticks [of k] obtain g1
    where v: "visits demoEnv (demoClocks k) 0 (demoRun k) [0] (Inr g1)" by auto
  from tick_visits(1) [OF v] demoRun_ticks [of k]
  have "ticks demoEnv demoClocks (Suc k) armed = Some (Inr (reset (broadcast g1)))" by simp
  then have "demoRun (Suc k) = reset (broadcast g1)"
    by (simp only: demoRun_def option.case stateOf.simps)
  moreover have "count_list [0 :: nat] 0 = 1" by simp
  moreover have "k = 0 \<longrightarrow> (0, True) \<in> set (turns demoEnv (demoClocks k) 0 [0] (demoRun k))"
  proof
    assume "k = 0"
    moreover have "demoRun 0 = armed" by (simp add: demoRun_def)
    ultimately show "(0, True) \<in> set (turns demoEnv (demoClocks k) 0 [0] (demoRun k))"
      by (simp only: armed_turns) simp
  qed
  ultimately show ?thesis using v by metis
qed

lemma demoRun_start: "\<not> animActive (heap (demoRun 0) 0)"
  by (simp add: demoRun_def armed_facts)

theorem anim_lifecycle_witness:
  "animState (heap (demoRun 0) 0) = (False, 0, 0, 0)
   \<and> animState (heap (demoRun 1) 0) = (True, 1, 1, 1)
   \<and> animState (heap (demoRun 8) 0) = (True, 1, 1, 8)
   \<and> animState (heap (demoRun 9) 0) = (False, 0, 0, 0)"
proof -
  have "\<not> animActive (heap (demoRun 0) 0)
        \<and> (\<forall>k<9. \<exists>as g1. visits demoEnv (demoClocks k) 0 (demoRun k) as (Inr g1)
               \<and> count_list as 0 = 1
               \<and> (k = 0 \<longrightarrow> (0, True) \<in> set (turns demoEnv (demoClocks k) 0 as (demoRun k)))
               \<and> animState (heap (demoRun (Suc k)) 0) = animState (heap (reset (broadcast g1)) 0))"
    using demoRun_start demoRun_step by blast
  with anim_lifecycle [OF demo_keeps_anim, where S = demoRun and clocks = demoClocks]
  have a: "\<forall>k\<le>7. animState (heap (demoRun (Suc k)) 0) = (True, 1, 1, int k + 1)"
    and b: "animState (heap (demoRun 9) 0) = (False, 0, 0, 0)"
    by blast+
  from a have "animState (heap (demoRun (Suc 0)) 0) = (True, 1, 1, int 0 + 1)" by blast
  moreover from a have "animState (heap (demoRun (Suc 7)) 0) = (True, 1, 1, int 7 + 1)"
    by (rule allE [where x = 7]) simp
  moreover have "animState (heap (demoRun 0) 0) = (False, 0, 0, 0)"
    by (simp add: demoRun_def armed_def heap_updObj animState_def joined_def addPlayer_def
        newGame_def newPlayer_def updObj_def emit_def Let_def)
  ultimately show ?thesis using b by simp
qed

text \<open>
  Against claim C8 as stated: in the one-player session \<open>armed\<close> the animation is
  activated in the first tick, which leaves elapsed at 1, not 0; after eight ticks
  elapsed is 8; the ninth tick, eight ticks after the activation and not nine, returns
  the animation to idle.
\<close>

theorem anim_lifecycle_counterexample:
  "map_option (\<lambda>r. animState (heap (stateOf r) 0)) (ticks demoEnv demoClocks 1 armed)
     = Some (True, 1, 1, 1)
   \<and> map_option (\<lambda>r. animState (heap (stateOf r) 0)) (ticks demoEnv demoClocks 8 armed)
     = Some (True, 1, 1, 8)
   \<and> map_option (\<lambda>r. animState (heap (stateOf r) 0)) (ticks demoEnv demoClocks 9 armed)
     = Some (False, 0, 0, 0)"
proof -
  have s: "\<forall>k<9. \<exists>as g1. visits demoEnv (demoClocks k) 0 (demoRun k) as (Inr g1)
               \<and> count_list as 0 = 1
               \<and> (k = 0 \<longrightarrow> (0, True) \<in> set (turns demoEnv (demoClocks k) 0 as (demoRun k)))
               \<and> animState (heap (demoRun (Suc k)) 0) = animState (heap (reset (broadcast g1)) 0)"
    using demoRun_step by blast
  note n = nine_ticks [where S = demoRun and clocks = demoClocks,
      OF demo_keeps_anim demoRun_start s]
  from n(1) [of 0] have 1: "animState (heap (demoRun 1) 0) = (True, 1, 1, 1)" by simp
  from n(1) [of 7] have 8: "animState (heap (demoRun 8) 0) = (True, 1, 1, 8)" by simp
  have t: "ticks demoEnv demoClocks 1 armed = Some (Inr (demoRun 1))"
    "ticks demoEnv demoClocks 8 armed = Some (Inr (demoRun 8))"
    "ticks demoEnv demoClocks 9 armed = Some (Inr (demoRun 9))"
    by (rule conjunct1 [OF demoRun_ticks])+
  show ?thesis unfolding t using 1 8 n(2) by simp
qed


end
